theory Spec2Isabelle
  imports Complex_Main "HOL-Library.Sublist" "HOL-Library.Log_Nat"
begin

section \<open>Python values used by \<open>cf_footprint.py\<close>\<close>

text \<open>
  A Python 3 \<open>str\<close> is a sequence of Unicode code points; a code point is a natural
  number here, so that \<open>str.splitlines\<close> and the regular expression class \<open>\s\<close> can be
  given with the code points Python uses. \<open>py\<close> reads an ASCII literal of the source.
\<close>

type_synonym pystr = "nat list"

definition py :: "string \<Rightarrow> pystr" where
  "py s = map of_char s"

text \<open>
  The second argument of the \<open>RuntimeError\<close>s of the script is the captured output: a
  text, a list of lines, or (in \<open>login_cf\<close>) the \<open>read\<close> method itself.
\<close>

datatype payload = PText pystr | PLines "pystr list" | PMethod

datatype error =
    RuntimeError pystr payload
  | IndexError
  | TypeError
  | ValueError
  | OverflowError
  | ZeroDivisionError

text \<open>Sequencing of computations that may raise: the first exception ends the run.\<close>

definition bind :: "error + 'a \<Rightarrow> ('a \<Rightarrow> error + 'b) \<Rightarrow> error + 'b" where
  "bind m f = (case m of Inl e \<Rightarrow> Inl e | Inr x \<Rightarrow> f x)"

subsection \<open>\<open>str.splitlines\<close>, \<open>in\<close>, \<open>str.split(sep, 1)\<close>, \<open>str.startswith\<close>\<close>

text \<open>
  The line boundaries of \<open>str.splitlines\<close> are the code points LF (10), VT (11),
  FF (12), CR (13), FS (28), GS (29), RS (30), NEL (133), LS (8232) and PS (8233); a CR
  directly followed by LF is one boundary. \<open>after_cr\<close> says that the character before
  was a CR that ended a line, so that an LF here belongs to that boundary.
\<close>

definition is_linebreak :: "nat \<Rightarrow> bool" where
  "is_linebreak c \<longleftrightarrow> c \<in> {10, 11, 12, 13, 28, 29, 30, 133, 8232, 8233}"

fun splitlines_from :: "bool \<Rightarrow> pystr \<Rightarrow> pystr \<Rightarrow> pystr list" where
  "splitlines_from after_cr cur [] = (if cur = [] then [] else [cur])"
| "splitlines_from after_cr cur (c # cs) =
     (if after_cr \<and> c = 10 then splitlines_from False cur cs
      else if is_linebreak c then cur # splitlines_from (c = 13) [] cs
      else splitlines_from False (cur @ [c]) cs)"

definition splitlines :: "pystr \<Rightarrow> pystr list" where
  "splitlines s = splitlines_from False [] s"

definition startswith :: "pystr \<Rightarrow> pystr \<Rightarrow> bool" where
  "startswith s p \<longleftrightarrow> take (length p) s = p"

text \<open>\<open>s.find(sub)\<close>: the lowest index where \<open>sub\<close> occurs in \<open>s\<close>, if any.\<close>

fun str_find :: "pystr \<Rightarrow> pystr \<Rightarrow> nat option" where
  "str_find sub [] = (if sub = [] then Some 0 else None)"
| "str_find sub (c # cs) =
     (if startswith (c # cs) sub then Some 0 else map_option Suc (str_find sub cs))"

text \<open>\<open>sub in s\<close> for two strings.\<close>

definition str_contains :: "pystr \<Rightarrow> pystr \<Rightarrow> bool" where
  "str_contains sub s \<longleftrightarrow> str_find sub s \<noteq> None"

text \<open>\<open>s.split(sep, 1)\<close> for a non-empty separator: at most one split, at the first occurrence.\<close>

definition split1 :: "pystr \<Rightarrow> pystr \<Rightarrow> pystr list" where
  "split1 sep s =
     (case str_find sep s of
        None \<Rightarrow> [s]
      | Some i \<Rightarrow> [take i s, drop (i + length sep) s])"

text \<open>\<open>xs[i]\<close> for a non-negative index: \<open>IndexError\<close> out of range.\<close>

definition index :: "'a list \<Rightarrow> nat \<Rightarrow> error + 'a" where
  "index xs i = (if i < length xs then Inr (xs ! i) else Inl IndexError)"

section \<open>The output parsers\<close>

text \<open>
  Each function of the script reads the whole output of one \<open>cf\<close> command with
  \<open>os.popen(...).read()\<close> and then parses it. The parsers below take that captured text
  as their argument; the commands themselves are run in \<open>main\<close> further down. The verbose
  narration only prints progress messages and is left out.
\<close>

definition get_cf_spaces :: "pystr \<Rightarrow> error + pystr list" where
  "get_cf_spaces spaces_output =
     (if str_contains (py ''name\<newline>'') spaces_output
      then (case index (split1 (py ''name\<newline>'') spaces_output) 1 of
              Inl e \<Rightarrow> Inl e
            | Inr rest \<Rightarrow> Inr (splitlines rest))
      else Inl (RuntimeError (py ''Error retrieving Cloud Foundry spaces:'') (PText spaces_output)))"

definition switch_to_cf_space :: "pystr \<Rightarrow> error + unit" where
  "switch_to_cf_space switch_output =
     (if str_contains (py ''API endpoint'') switch_output then Inr ()
      else Inl (RuntimeError (py ''Error switching to space:'') (PText switch_output)))"

text \<open>The loop of \<open>get_services\<close>: one more for every non-empty line.\<close>

fun count_services :: "int \<Rightarrow> pystr list \<Rightarrow> int" where
  "count_services services [] = services"
| "count_services services (svs # rest) =
     count_services (if svs \<noteq> [] then services + 1 else services) rest"

definition get_services :: "pystr \<Rightarrow> int" where
  "get_services text =
     (let services_output = splitlines text in
      if py ''No services found'' \<in> set services_output then 0
      else count_services 0 services_output - 2)"

subsection \<open>The regular expression of \<open>get_active_instances\<close>\<close>

text \<open>
  \<open>re.search(r"\sstarted\s*web:([0-9]?[0-9])/[0-9]?[0-9]", line)\<close>. The pattern is a
  sequence of one-character items, some optional (\<open>?\<close>) or repeated (\<open>*\<close>), both
  greedy, with one group. \<open>\s\<close> on a \<open>str\<close> pattern is Unicode whitespace; \<open>[0-9]\<close> is
  the ten ASCII digits.
\<close>

definition is_space :: "nat \<Rightarrow> bool" where
  "is_space c \<longleftrightarrow>
     c \<in> {9, 10, 11, 12, 13, 28, 29, 30, 31, 32, 133, 160, 5760, 8232, 8233, 8239, 8287, 12288}
     \<or> (8192 \<le> c \<and> c \<le> 8202)"

definition is_digit :: "nat \<Rightarrow> bool" where
  "is_digit c \<longleftrightarrow> 48 \<le> c \<and> c \<le> 57"

datatype atom = Ch nat | Whitespace | Digit09

datatype item = One atom | Opt atom | Star atom | GroupOpen | GroupClose

fun atom_matches :: "atom \<Rightarrow> nat \<Rightarrow> bool" where
  "atom_matches (Ch a) c \<longleftrightarrow> c = a"
| "atom_matches Whitespace c \<longleftrightarrow> is_space c"
| "atom_matches Digit09 c \<longleftrightarrow> is_digit c"

text \<open>
  Backtracking match of the items at the start of \<open>s\<close>: a greedy item first tries to take
  a character and gives it back when the rest fails. \<open>cap\<close> says that the group is open,
  \<open>g\<close> is its text so far; the result is the group of the first match found.
\<close>

fun match_here :: "item list \<Rightarrow> pystr \<Rightarrow> bool \<Rightarrow> pystr \<Rightarrow> pystr option" where
  "match_here [] s cap g = Some g"
| "match_here (GroupOpen # ps) s cap g = match_here ps s True []"
| "match_here (GroupClose # ps) s cap g = match_here ps s False g"
| "match_here (One a # ps) [] cap g = None"
| "match_here (One a # ps) (c # cs) cap g =
     (if atom_matches a c then match_here ps cs cap (if cap then g @ [c] else g) else None)"
| "match_here (Opt a # ps) [] cap g = match_here ps [] cap g"
| "match_here (Opt a # ps) (c # cs) cap g =
     (case (if atom_matches a c then match_here ps cs cap (if cap then g @ [c] else g) else None) of
        Some r \<Rightarrow> Some r
      | None \<Rightarrow> match_here ps (c # cs) cap g)"
| "match_here (Star a # ps) [] cap g = match_here ps [] cap g"
| "match_here (Star a # ps) (c # cs) cap g =
     (case (if atom_matches a c then match_here (Star a # ps) cs cap (if cap then g @ [c] else g)
            else None) of
        Some r \<Rightarrow> Some r
      | None \<Rightarrow> match_here ps (c # cs) cap g)"

text \<open>\<open>re.search\<close>: the match at the leftmost position that has one; its group 1.\<close>

fun re_search :: "item list \<Rightarrow> pystr \<Rightarrow> pystr option" where
  "re_search p [] = match_here p [] False []"
| "re_search p (c # cs) =
     (case match_here p (c # cs) False [] of
        Some g \<Rightarrow> Some g
      | None \<Rightarrow> re_search p cs)"

definition apps_pattern :: "item list" where
  "apps_pattern =
     One Whitespace # map (\<lambda>c. One (Ch c)) (py ''started'') @
     Star Whitespace # map (\<lambda>c. One (Ch c)) (py ''web:'') @
     [GroupOpen, Opt Digit09, One Digit09, GroupClose, One (Ch 47), Opt Digit09, One Digit09]"

text \<open>\<open>int(match_obj.group(1))\<close>: the group is one or two ASCII digits.\<close>

definition int_of_digits :: "pystr \<Rightarrow> int" where
  "int_of_digits ds = foldl (\<lambda>a c. 10 * a + (int c - 48)) 0 ds"

text \<open>
  In the words of the specification: at the start of \<open>s\<close> stand a whitespace character,
  \<open>started\<close>, optional whitespace, \<open>web:\<close>, one or two digits (the first number \<open>g\<close>),
  \<open>/\<close>, and one or two digits.
\<close>

definition matches_here :: "pystr \<Rightarrow> pystr \<Rightarrow> bool" where
  "matches_here s g \<longleftrightarrow>
     (\<exists>w ws d rest.
        s = w # py ''started'' @ ws @ py ''web:'' @ g @ py ''/'' @ d @ rest
        \<and> is_space w \<and> list_all is_space ws
        \<and> (length g = 1 \<or> length g = 2) \<and> list_all is_digit g
        \<and> (length d = 1 \<or> length d = 2) \<and> list_all is_digit d)"

fun count_instances :: "int \<Rightarrow> pystr list \<Rightarrow> int" where
  "count_instances instances [] = instances"
| "count_instances instances (line # rest) =
     count_instances
       (case re_search apps_pattern line of
          None \<Rightarrow> instances
        | Some g \<Rightarrow> instances + int_of_digits g) rest"

definition get_active_instances :: "pystr \<Rightarrow> error + int" where
  "get_active_instances text =
     (let apps_output = splitlines text in
      if py ''No apps found'' \<in> set apps_output then Inr 0
      else case index apps_output 2 of
             Inl e \<Rightarrow> Inl e
           | Inr third \<Rightarrow>
               if startswith third (py ''name'') then Inr (count_instances 0 apps_output)
               else Inl (RuntimeError (py ''Error retrieving applications data'')
                          (PLines apps_output)))"

section \<open>\<open>login_cf\<close>\<close>

text \<open>
  The commands are run by \<open>os.popen\<close>; what a command prints, and what it does to the
  session of the \<open>cf\<close> client, is not in the script: \<open>popen\<close> is a parameter, a function
  from the command line and the state of the outside world to the text printed and the
  new state.
\<close>

type_synonym 'w popen = "pystr \<Rightarrow> 'w \<Rightarrow> pystr \<times> 'w"

text \<open>
  \<open>login_output = os.popen(login).read\<close> has no call parentheses: \<open>login_output\<close> is
  the bound method of the pipe, not the text the pipe would deliver. \<open>x in y\<close> for an
  object that is no container raises \<open>TypeError\<close>.
\<close>

datatype pyobj = Text pystr | ReadMethod pystr

definition py_in :: "pystr \<Rightarrow> pyobj \<Rightarrow> error + bool" where
  "py_in sub ob = (case ob of Text s \<Rightarrow> Inr (str_contains sub s) | ReadMethod pending \<Rightarrow> Inl TypeError)"

definition login_cf ::
  "'w popen \<Rightarrow> pystr \<Rightarrow> pystr \<Rightarrow> pystr \<Rightarrow> pystr \<Rightarrow> pystr \<Rightarrow> 'w \<Rightarrow> error + 'w" where
  "login_cf popen cf_api cf_user cf_pwd cf_org cf_space w =
     (let login = py ''cf login -a '' @ cf_api @ py '', -u '' @ cf_user @ py '', -p '' @ cf_pwd
                  @ py '', -o '' @ cf_org @ py '', -s '' @ cf_space;
          (pending, w') = popen login w;
          login_output = ReadMethod pending
      in bind (py_in (py ''API endpoint:'') login_output)
           (\<lambda>found. if found then Inr w'
                    else Inl (RuntimeError (py ''Error logging into Cloud Foundry:'') PMethod)))"

section \<open>The footprint calculator\<close>

subsection \<open>Python floats\<close>

text \<open>
  A Python \<open>float\<close> is an IEEE 754 binary64 number: a finite value is the rational it
  denotes, and every arithmetic result is the exact result rounded to the nearest
  representable value, ties to the even mantissa (\<open>to_double\<close>). The sign of a zero is
  not kept: the script only rounds its floats to integers, where it cannot be seen.
\<close>

datatype pyfloat = Finite rat | PInf | NInf | NaN

definition round_half_even :: "rat \<Rightarrow> int" where
  "round_half_even x =
     (let f = \<lfloor>x\<rfloor>; d = x - of_int f
      in if d < 1 / 2 then f else if 1 / 2 < d then f + 1 else if even f then f else f + 1)"

text \<open>\<open>ilog2 x\<close> is the integer \<open>k\<close> with \<open>2 ^ k \<le> x < 2 ^ (k + 1)\<close>, for \<open>x > 0\<close>.\<close>

definition ilog2 :: "rat \<Rightarrow> int" where
  "ilog2 x =
     (if 1 \<le> x then int (floorlog 2 (nat \<lfloor>x\<rfloor>)) - 1
      else - int (floorlog 2 (nat (\<lceil>1 / x\<rceil> - 1))))"

text \<open>
  53 bits of mantissa, and the least exponent of a (subnormal) mantissa bit is \<open>- 1074\<close>:
  \<open>rounded x\<close> is the multiple of the unit in the last place of \<open>x\<close> nearest to \<open>x\<close>.
  A rounded value of \<open>2 ^ 1024\<close> or more is an infinity.
\<close>

definition rounded :: "rat \<Rightarrow> rat" where
  "rounded x =
     (let e = max (ilog2 \<bar>x\<bar> - 52) (- 1074)
      in of_int (round_half_even (x / 2 powi e)) * 2 powi e)"

definition to_double :: "rat \<Rightarrow> pyfloat" where
  "to_double x =
     (if x = 0 then Finite 0
      else if 2 ^ 1024 \<le> \<bar>rounded x\<bar> then (if 0 < x then PInf else NInf)
      else Finite (rounded x))"

text \<open>\<open>float(n)\<close> for an \<open>int\<close>, as the mixed operations apply it: too large raises.\<close>

definition float_of_int :: "int \<Rightarrow> error + pyfloat" where
  "float_of_int n =
     (case to_double (of_int n) of Finite y \<Rightarrow> Inr (Finite y) | _ \<Rightarrow> Inl OverflowError)"

text \<open>\<open>a / b\<close> for two \<open>int\<close>s: the exact quotient, rounded once.\<close>

definition int_truediv :: "int \<Rightarrow> int \<Rightarrow> error + pyfloat" where
  "int_truediv a b =
     (if b = 0 then Inl ZeroDivisionError
      else case to_double (of_int a / of_int b) of
             Finite y \<Rightarrow> Inr (Finite y)
           | _ \<Rightarrow> Inl OverflowError)"

fun fmul :: "pyfloat \<Rightarrow> pyfloat \<Rightarrow> pyfloat" where
  "fmul (Finite x) (Finite y) = to_double (x * y)"
| "fmul NaN _ = NaN"
| "fmul _ NaN = NaN"
| "fmul (Finite x) PInf = (if x = 0 then NaN else if 0 < x then PInf else NInf)"
| "fmul (Finite x) NInf = (if x = 0 then NaN else if 0 < x then NInf else PInf)"
| "fmul PInf (Finite y) = (if y = 0 then NaN else if 0 < y then PInf else NInf)"
| "fmul NInf (Finite y) = (if y = 0 then NaN else if 0 < y then NInf else PInf)"
| "fmul PInf PInf = PInf"
| "fmul PInf NInf = NInf"
| "fmul NInf PInf = NInf"
| "fmul NInf NInf = PInf"

fun fdiv :: "pyfloat \<Rightarrow> pyfloat \<Rightarrow> error + pyfloat" where
  "fdiv (Finite x) (Finite y) = (if y = 0 then Inl ZeroDivisionError else Inr (to_double (x / y)))"
| "fdiv NaN (Finite y) = (if y = 0 then Inl ZeroDivisionError else Inr NaN)"
| "fdiv PInf (Finite y) =
     (if y = 0 then Inl ZeroDivisionError else Inr (if 0 < y then PInf else NInf))"
| "fdiv NInf (Finite y) =
     (if y = 0 then Inl ZeroDivisionError else Inr (if 0 < y then NInf else PInf))"
| "fdiv _ NaN = Inr NaN"
| "fdiv (Finite x) _ = Inr (Finite 0)"
| "fdiv _ _ = Inr NaN"

fun fadd :: "pyfloat \<Rightarrow> pyfloat \<Rightarrow> pyfloat" where
  "fadd (Finite x) (Finite y) = to_double (x + y)"
| "fadd NaN _ = NaN"
| "fadd _ NaN = NaN"
| "fadd PInf NInf = NaN"
| "fadd NInf PInf = NaN"
| "fadd PInf _ = PInf"
| "fadd _ PInf = PInf"
| "fadd NInf _ = NInf"
| "fadd _ NInf = NInf"

text \<open>\<open>x * n\<close> and \<open>x / n\<close> for a \<open>float\<close> and an \<open>int\<close>: the \<open>int\<close> is converted first.\<close>

definition float_mul_int :: "pyfloat \<Rightarrow> int \<Rightarrow> error + pyfloat" where
  "float_mul_int x n = bind (float_of_int n) (\<lambda>y. Inr (fmul x y))"

definition int_mul_float :: "int \<Rightarrow> pyfloat \<Rightarrow> error + pyfloat" where
  "int_mul_float n x = bind (float_of_int n) (\<lambda>y. Inr (fmul y x))"

definition float_div_int :: "pyfloat \<Rightarrow> int \<Rightarrow> error + pyfloat" where
  "float_div_int x n = bind (float_of_int n) (\<lambda>y. fdiv x y)"

text \<open>The order of floats, for comparing results: \<open>x <= y\<close> in Python.\<close>

fun fle :: "pyfloat \<Rightarrow> pyfloat \<Rightarrow> bool" where
  "fle NaN _ = False"
| "fle _ NaN = False"
| "fle NInf _ = True"
| "fle _ PInf = True"
| "fle (Finite x) (Finite y) = (x \<le> y)"
| "fle _ _ = False"

text \<open>
  \<open>round(x)\<close> with one argument gives an \<open>int\<close>: the nearest integer, a tie to the even
  one; an infinity raises \<open>OverflowError\<close> and a NaN \<open>ValueError\<close>.
\<close>

fun py_round :: "pyfloat \<Rightarrow> error + int" where
  "py_round (Finite x) = Inr (round_half_even x)"
| "py_round NaN = Inl ValueError"
| "py_round _ = Inl OverflowError"

subsection \<open>The three formulas\<close>

definition WATT_PER_SERVER :: int where
  "WATT_PER_SERVER = 400"

definition INSTANCES_PER_SERVER :: int where
  "INSTANCES_PER_SERVER = 65"

text \<open>
  \<open>HOURS_PER_YEAR = 365.25 * 24\<close>: the literal \<open>365.25\<close> is the binary64 value
  \<open>1461 / 4\<close>, and 24 converts to a float exactly.
\<close>

definition HOURS_PER_YEAR :: pyfloat where
  "HOURS_PER_YEAR = fmul (Finite (1461 / 4)) (Finite 24)"

definition calculate_footprint :: "int \<Rightarrow> error + pyfloat" where
  "calculate_footprint active_instances =
     bind (int_truediv active_instances INSTANCES_PER_SERVER)
       (\<lambda>servers. float_mul_int servers WATT_PER_SERVER)"

definition calculate_footprint_per_year :: "int \<Rightarrow> error + pyfloat" where
  "calculate_footprint_per_year active_instances =
     bind (calculate_footprint active_instances)
       (\<lambda>watt. float_div_int (fmul watt HOURS_PER_YEAR) 1000)"

definition calculate_carbon_footprint_per_year :: "int \<Rightarrow> int \<Rightarrow> error + pyfloat" where
  "calculate_carbon_footprint_per_year active_instances carbon_intensity =
     bind (calculate_footprint_per_year active_instances)
       (\<lambda>kwh. bind (float_mul_int kwh carbon_intensity) (\<lambda>gram. float_div_int gram 1000))"

section \<open>The reporter\<close>

text \<open>
  The command line as \<open>argparse\<close> leaves it: \<open>-y\<close> and \<open>-v\<close> are flags, \<open>-c\<close> and \<open>-s\<close>
  take a string and are \<open>None\<close> when absent. A test \<open>if args.carbon\<close> is Python
  truthiness: \<open>None\<close> and the empty string are false.
\<close>

record args =
  year :: bool
  carbon :: "pystr option"
  space :: "pystr option"
  verbose :: bool

definition truthy :: "pystr option \<Rightarrow> bool" where
  "truthy v = (case v of None \<Rightarrow> False | Some s \<Rightarrow> s \<noteq> [])"

definition TOTAL :: pystr where
  "TOTAL = py ''TOTAL''"

text \<open>\<open>str(n)\<close> of an \<open>int\<close>, as \<open>format\<close> prints it.\<close>

fun digits :: "nat \<Rightarrow> pystr" where
  "digits n = (if n < 10 then [48 + n] else digits (n div 10) @ [48 + n mod 10])"

declare digits.simps [simp del]

definition str_of_int :: "int \<Rightarrow> pystr" where
  "str_of_int i = (if i < 0 then 45 # digits (nat (- i)) else digits (nat i))"

text \<open>
  \<open>int(args.carbon)\<close> parses a string the user typed; the builtin is a parameter
  \<open>int_of\<close> of the reporter (it raises \<open>ValueError\<close> on a text that is no integer). The
  result of \<open>print_footprint\<close> is the line it prints.
\<close>

definition print_footprint ::
  "(pystr \<Rightarrow> error + int) \<Rightarrow> args \<Rightarrow> pystr \<Rightarrow> int \<Rightarrow> error + pystr" where
  "print_footprint int_of a name active_instances =
     (let name' = (if name = TOTAL then TOTAL @ py '':'' else py ''Space '' @ name @ py '':'')
      in if truthy (carbon a) then
           bind (int_of (case carbon a of Some c \<Rightarrow> c | None \<Rightarrow> []))
             (\<lambda>intensity. bind (calculate_carbon_footprint_per_year active_instances intensity)
               (\<lambda>v. bind (py_round v)
                 (\<lambda>r. Inr (name' @ py '' '' @ str_of_int r @ py '' kg CO2e per year''))))
         else if year a then
           bind (calculate_footprint_per_year active_instances)
             (\<lambda>v. bind (py_round v)
               (\<lambda>r. Inr (name' @ py '' '' @ str_of_int r @ py '' kWh per year'')))
         else
           bind (calculate_footprint active_instances)
             (\<lambda>v. bind (py_round v)
               (\<lambda>r. Inr (name' @ py '' '' @ str_of_int r @ py '' Watt''))))"

section \<open>\<open>main\<close>\<close>

text \<open>
  The state of a run: the outside world, the arguments of the calls of
  \<open>print_footprint\<close> so far, and the lines printed so far.
\<close>

record 'w run =
  world :: 'w
  reports :: "(pystr \<times> int) list"
  stdout :: "pystr list"

definition report ::
  "(pystr \<Rightarrow> error + int) \<Rightarrow> args \<Rightarrow> pystr \<Rightarrow> int \<Rightarrow> 'w run \<Rightarrow> error + 'w run" where
  "report int_of a name active_instances st =
     bind (print_footprint int_of a name active_instances)
       (\<lambda>line. Inr (st\<lparr>reports := reports st @ [(name, active_instances)],
                       stdout := stdout st @ [line]\<rparr>))"

text \<open>One space: \<open>switch_to_cf_space(space)\<close>, then \<open>get_active_instances()\<close>.\<close>

definition measure_space :: "'w popen \<Rightarrow> pystr \<Rightarrow> 'w \<Rightarrow> error + int \<times> 'w" where
  "measure_space popen space_name w =
     (let (switch_output, w1) = popen (py ''cf target -s '' @ space_name) w
      in bind (switch_to_cf_space switch_output)
           (\<lambda>_. let (apps_text, w2) = popen (py ''cf apps'') w1
                in bind (get_active_instances apps_text) (\<lambda>n. Inr (n, w2))))"

text \<open>The \<open>for space in spaces\<close> loop, with its running \<open>total_instances\<close>.\<close>

fun main_loop ::
  "'w popen \<Rightarrow> (pystr \<Rightarrow> error + int) \<Rightarrow> args \<Rightarrow> pystr list \<Rightarrow> int \<Rightarrow> 'w run
     \<Rightarrow> error + int \<times> 'w run" where
  "main_loop popen int_of a [] total_instances st = Inr (total_instances, st)"
| "main_loop popen int_of a (space_name # rest) total_instances st =
     bind (measure_space popen space_name (world st))
       (\<lambda>(active_instances, w).
          bind (report int_of a space_name active_instances (st\<lparr>world := w\<rparr>))
            (\<lambda>st'. main_loop popen int_of a rest (total_instances + active_instances) st'))"

definition main :: "'w popen \<Rightarrow> (pystr \<Rightarrow> error + int) \<Rightarrow> args \<Rightarrow> 'w \<Rightarrow> error + 'w run" where
  "main popen int_of a w =
     (let st = \<lparr>world = w, reports = [], stdout = []\<rparr>
      in if truthy (space a) then
           (let space_name = (case space a of Some s \<Rightarrow> s | None \<Rightarrow> [])
            in bind (measure_space popen space_name w)
                 (\<lambda>(active_instances, w1).
                    bind (report int_of a space_name active_instances (st\<lparr>world := w1\<rparr>))
                      (\<lambda>st'. let (services_text, w2) = popen (py ''cf services'') (world st');
                                  services = get_services services_text
                              in Inr (st'\<lparr>world := w2\<rparr>))))
         else
           (let (spaces_output, w1) = popen (py ''cf spaces'') w
            in bind (get_cf_spaces spaces_output)
                 (\<lambda>spaces. bind (main_loop popen int_of a spaces 0 (st\<lparr>world := w1\<rparr>))
                    (\<lambda>(total_instances, st'). report int_of a TOTAL total_instances st'))))"

text \<open>
  In the words of the specification: the per-space instance counts that
  \<open>get_active_instances\<close> returns for the spaces of a run, in order.
\<close>

fun per_space_counts :: "'w popen \<Rightarrow> pystr list \<Rightarrow> 'w \<Rightarrow> error + int list \<times> 'w" where
  "per_space_counts popen [] w = Inr ([], w)"
| "per_space_counts popen (space_name # rest) w =
     bind (measure_space popen space_name w)
       (\<lambda>(n, w'). bind (per_space_counts popen rest w') (\<lambda>(ns, w''). Inr (n # ns, w'')))"

section \<open>Properties of the output parsers\<close>

subsection \<open>Searching a string\<close>

lemma startswith_prefix: "startswith s p \<longleftrightarrow> prefix p s"
  unfolding startswith_def prefix_def
  by (metis append_eq_conv_conj append_take_drop_id)

lemma str_find_Some:
  "str_find sub s = Some i \<Longrightarrow>
     i \<le> length s \<and> startswith (drop i s) sub \<and> (\<forall>j<i. \<not> startswith (drop j s) sub)"
proof (induction s arbitrary: i)
  case Nil
  then show ?case by (auto simp: startswith_def split: if_splits)
next
  case (Cons c cs)
  show ?case
  proof (cases "startswith (c # cs) sub")
    case True
    with Cons.prems show ?thesis by simp
  next
    case False
    with Cons.prems obtain k where k: "str_find sub cs = Some k" "i = Suc k"
      by auto
    from Cons.IH[OF k(1)] have ih: "k \<le> length cs" "startswith (drop k cs) sub"
      "\<forall>j<k. \<not> startswith (drop j cs) sub" by auto
    have "\<not> startswith (drop j (c # cs)) sub" if "j < i" for j
      using that False ih(3) k(2) by (cases j) auto
    with ih k show ?thesis by simp
  qed
qed

lemma str_find_None:
  "str_find sub s = None \<Longrightarrow> j \<le> length s \<Longrightarrow> \<not> startswith (drop j s) sub"
proof (induction s arbitrary: j)
  case Nil
  then show ?case by (auto simp: startswith_def split: if_splits)
next
  case (Cons c cs)
  then show ?case by (cases j) (auto split: if_splits)
qed

lemma str_find_occurrence:
  assumes "str_find sub s = Some i"
  obtains post where "s = take i s @ sub @ post"
proof -
  from str_find_Some[OF assms] obtain post where "drop i s = sub @ post"
    by (auto simp: startswith_prefix prefix_def)
  then have "s = take i s @ sub @ post" by (metis append_take_drop_id)
  then show ?thesis by (rule that)
qed

text \<open>
  The first occurrence: \<open>sub\<close> occurs after \<open>pre\<close>, and no occurrence starts earlier, that
  is, none lies within \<open>pre\<close> followed by all but the last character of \<open>sub\<close>.
\<close>

lemma str_find_first:
  assumes s: "s = pre @ sub @ post"
      and first: "\<not> sublist sub (pre @ butlast sub)"
  shows "str_find sub s = Some (length pre)"
proof (cases "str_find sub s")
  case None
  from str_find_None[OF None, of "length pre"] s show ?thesis
    by (simp add: startswith_def)
next
  case (Some i)
  from str_find_Some[OF Some] have i: "\<forall>j<i. \<not> startswith (drop j s) sub" by auto
  have "startswith (drop (length pre) s) sub" using s by (simp add: startswith_def)
  with i have le: "i \<le> length pre" by (meson not_le_imp_less)
  have "\<not> i < length pre"
  proof
    assume lt: "i < length pre"
    from first have ne: "sub \<noteq> []" by auto
    from str_find_occurrence[OF Some] obtain post' where occ: "s = take i s @ sub @ post'" .
    define n where "n = length pre + (length sub - 1)"
    have n: "i + length sub \<le> n" using lt ne by (cases sub) (simp_all add: n_def)
    define r where "r = drop (i + length sub) (take n s)"
    have A: "take n s = pre @ butlast sub"
      using s by (simp add: n_def butlast_conv_take)
    have B: "take (i + length sub) s = take i s @ sub"
    proof -
      have "length (take i s) = i" using le s by simp
      then show ?thesis by (subst occ) (simp add: take_add)
    qed
    have C: "take n s = take (i + length sub) s @ r"
      unfolding r_def using n by (metis append_take_drop_id min.absorb1 take_take)
    have "pre @ butlast sub = take n s" by (simp only: A)
    also have "\<dots> = take (i + length sub) s @ r" by (rule C)
    also have "\<dots> = (take i s @ sub) @ r" by (simp only: B)
    finally have "pre @ butlast sub = take i s @ sub @ r" by (simp only: append_assoc)
    then have "sublist sub (pre @ butlast sub)" unfolding sublist_def by blast
    with first show False by simp
  qed
  with le Some show ?thesis by simp
qed

lemma str_find_absent:
  assumes "\<not> sublist sub s"
  shows "str_find sub s = None"
proof (cases "str_find sub s")
  case (Some i)
  from str_find_occurrence[OF Some] obtain post where "s = take i s @ sub @ post" .
  with assms show ?thesis by (auto simp: sublist_def)
qed simp

subsection \<open>The regular expression\<close>

text \<open>
  The backtracking matcher finds the pattern exactly where the specification's words
  describe a match, and \<open>re_search\<close> returns the first number of the leftmost one.
\<close>

lemma one_ch:
  "match_here (One (Ch x) # ps) s False g = Some r \<longleftrightarrow>
     (\<exists>t. s = x # t \<and> match_here ps t False g = Some r)"
  by (cases s) auto

lemma one_ws:
  "match_here (One Whitespace # ps) s False g = Some r \<longleftrightarrow>
     (\<exists>w t. s = w # t \<and> is_space w \<and> match_here ps t False g = Some r)"
  by (cases s) auto

lemma star_ws:
  assumes "\<not> is_space x"
  shows "match_here (Star Whitespace # One (Ch x) # ps) s False g = Some r \<longleftrightarrow>
     (\<exists>ws t. s = ws @ x # t \<and> list_all is_space ws \<and> match_here ps t False g = Some r)"
proof (induction s)
  case Nil
  then show ?case by simp
next
  case (Cons c cs)
  show ?case
  proof (cases "is_space c")
    case True
    then have cx: "c \<noteq> x" using assms by auto
    have "match_here (Star Whitespace # One (Ch x) # ps) (c # cs) False g = Some r
      \<longleftrightarrow> match_here (Star Whitespace # One (Ch x) # ps) cs False g = Some r"
      using True cx by (auto split: option.splits)
    also have "\<dots> \<longleftrightarrow> (\<exists>ws t. cs = ws @ x # t \<and> list_all is_space ws
                          \<and> match_here ps t False g = Some r)"
      by (rule Cons.IH)
    also have "\<dots> \<longleftrightarrow> (\<exists>ws t. c # cs = ws @ x # t \<and> list_all is_space ws
                          \<and> match_here ps t False g = Some r)"
    proof
      assume "\<exists>ws t. cs = ws @ x # t \<and> list_all is_space ws \<and> match_here ps t False g = Some r"
      then obtain ws t where "cs = ws @ x # t" "list_all is_space ws"
        "match_here ps t False g = Some r" by blast
      then have "c # cs = (c # ws) @ x # t \<and> list_all is_space (c # ws)
                   \<and> match_here ps t False g = Some r" using True by simp
      then show "\<exists>ws t. c # cs = ws @ x # t \<and> list_all is_space ws
                          \<and> match_here ps t False g = Some r" by blast
    next
      assume "\<exists>ws t. c # cs = ws @ x # t \<and> list_all is_space ws
                          \<and> match_here ps t False g = Some r"
      then obtain ws t where w: "c # cs = ws @ x # t" "list_all is_space ws"
        "match_here ps t False g = Some r" by blast
      from w(1) cx obtain ws' where "ws = c # ws'" by (cases ws) auto
      with w show "\<exists>ws t. cs = ws @ x # t \<and> list_all is_space ws
                     \<and> match_here ps t False g = Some r" by auto
    qed
    finally show ?thesis .
  next
    case False
    have "match_here (Star Whitespace # One (Ch x) # ps) (c # cs) False g = Some r
      \<longleftrightarrow> c = x \<and> match_here ps cs False g = Some r"
      using False by auto
    also have "\<dots> \<longleftrightarrow> (\<exists>ws t. c # cs = ws @ x # t \<and> list_all is_space ws
                          \<and> match_here ps t False g = Some r)"
    proof
      assume "c = x \<and> match_here ps cs False g = Some r"
      then have "c # cs = [] @ x # cs \<and> list_all is_space [] \<and> match_here ps cs False g = Some r"
        by simp
      then show "\<exists>ws t. c # cs = ws @ x # t \<and> list_all is_space ws
                          \<and> match_here ps t False g = Some r" by blast
    next
      assume "\<exists>ws t. c # cs = ws @ x # t \<and> list_all is_space ws
                          \<and> match_here ps t False g = Some r"
      then obtain ws t where w: "c # cs = ws @ x # t" "list_all is_space ws"
        "match_here ps t False g = Some r" by blast
      from w(1,2) False have "ws = []" by (cases ws) auto
      with w show "c = x \<and> match_here ps cs False g = Some r" by simp
    qed
    finally show ?thesis .
  qed
qed

lemma not_digit_47 [simp]: "\<not> is_digit 47"
  by (simp add: is_digit_def)

lemma one_digit:
  "match_here [One Digit09] s False g = Some r \<longleftrightarrow>
     r = g \<and> (\<exists>d1 t. s = d1 # t \<and> is_digit d1)"
  by (cases s) auto

lemma tail_iff:
  "match_here [Opt Digit09, One Digit09] s False g = Some r \<longleftrightarrow>
     r = g \<and> (\<exists>d1 t. s = d1 # t \<and> is_digit d1)"
proof (cases s)
  case Nil
  then show ?thesis by simp
next
  case (Cons c cs)
  then show ?thesis by (cases cs) (auto split: option.splits)
qed

lemma slash_iff:
  "match_here [One (Ch 47), Opt Digit09, One Digit09] s False g = Some r \<longleftrightarrow>
     r = g \<and> (\<exists>d1 t. s = 47 # d1 # t \<and> is_digit d1)"
proof (cases s)
  case Nil
  then show ?thesis by simp
next
  case (Cons c cs)
  have "match_here [One (Ch 47), Opt Digit09, One Digit09] (c # cs) False g
          = (if c = 47 then match_here [Opt Digit09, One Digit09] cs False g else None)"
    by simp
  then show ?thesis
    unfolding Cons using tail_iff[of cs g r] by (auto simp del: match_here.simps)
qed

lemma slash_None:
  "match_here [One (Ch 47), Opt Digit09, One Digit09] s False g = None \<longleftrightarrow>
     \<not> (\<exists>d1 t. s = 47 # d1 # t \<and> is_digit d1)"
proof (cases "match_here [One (Ch 47), Opt Digit09, One Digit09] s False g")
  case None
  then show ?thesis using slash_iff[of s g g] by simp
next
  case (Some r)
  then show ?thesis using slash_iff[of s g r] by simp
qed

lemma digits_part:
  "match_here [GroupOpen, Opt Digit09, One Digit09, GroupClose, One (Ch 47), Opt Digit09, One Digit09]
      s False g0 = Some g \<longleftrightarrow>
   (\<exists>a d1 t. s = a # 47 # d1 # t \<and> is_digit a \<and> is_digit d1 \<and> g = [a])
   \<or> (\<exists>a b d1 t. s = a # b # 47 # d1 # t \<and> is_digit a \<and> is_digit b \<and> is_digit d1 \<and> g = [a, b])"
proof (cases s)
  case Nil
  then show ?thesis by simp
next
  case s: (Cons a s1)
  show ?thesis
  proof (cases s1)
    case Nil
    with s show ?thesis by (auto split: option.splits)
  next
    case (Cons b s2)
    have step: "match_here [GroupOpen, Opt Digit09, One Digit09, GroupClose, One (Ch 47), Opt Digit09, One Digit09]
        (a # b # s2) False g0 =
      (if is_digit a then
         (case (if is_digit b then match_here [One (Ch 47), Opt Digit09, One Digit09] s2 False [a, b]
                else None) of
            Some r \<Rightarrow> Some r
          | None \<Rightarrow> match_here [One (Ch 47), Opt Digit09, One Digit09] (b # s2) False [a])
       else None)"
      by (auto split: option.splits)
    show ?thesis
    proof (cases "is_digit a")
      case False
      then show ?thesis unfolding s Cons step by (auto simp del: match_here.simps)
    next
      case da: True
      show ?thesis
      proof (cases "is_digit b \<and> (\<exists>d1 t. s2 = 47 # d1 # t \<and> is_digit d1)")
        case True
        then have "match_here [One (Ch 47), Opt Digit09, One Digit09] s2 False [a, b] = Some [a, b]"
          by (simp add: slash_iff)
        with True da have "match_here [GroupOpen, Opt Digit09, One Digit09, GroupClose, One (Ch 47), Opt Digit09, One Digit09]
        (a # b # s2) False g0 = Some [a, b]" unfolding step by simp
        moreover have "b \<noteq> 47" using True by auto
        ultimately show ?thesis unfolding s Cons using True da
          by (auto simp del: match_here.simps)
      next
        case False
        then have "(if is_digit b then match_here [One (Ch 47), Opt Digit09, One Digit09] s2 False [a, b]
                else None) = None"
          by (auto simp: slash_None)
        with da have "match_here [GroupOpen, Opt Digit09, One Digit09, GroupClose, One (Ch 47), Opt Digit09, One Digit09]
        (a # b # s2) False g0 = match_here [One (Ch 47), Opt Digit09, One Digit09] (b # s2) False [a]"
          unfolding step by simp
        then show ?thesis unfolding s Cons using False da slash_iff[of "b # s2" "[a]" g]
          by (auto simp del: match_here.simps)
      qed
    qed
  qed
qed

lemma not_space_w [simp]: "\<not> is_space 119"
  by (simp add: is_space_def)

lemma apps_pattern_unfold:
  "apps_pattern =
     One Whitespace # One (Ch 115) # One (Ch 116) # One (Ch 97) # One (Ch 114) # One (Ch 116)
     # One (Ch 101) # One (Ch 100) # Star Whitespace # One (Ch 119) # One (Ch 101) # One (Ch 98)
     # One (Ch 58)
     # [GroupOpen, Opt Digit09, One Digit09, GroupClose, One (Ch 47), Opt Digit09, One Digit09]"
  by (simp add: apps_pattern_def py_def)

lemma match_here_apps_pattern:
  "match_here apps_pattern s False [] = Some g \<longleftrightarrow>
     (\<exists>w ws t. s = w # py ''started'' @ ws @ py ''web:'' @ t \<and> is_space w \<and> list_all is_space ws
        \<and> ((\<exists>a d1 r. t = a # 47 # d1 # r \<and> is_digit a \<and> is_digit d1 \<and> g = [a])
           \<or> (\<exists>a b d1 r. t = a # b # 47 # d1 # r \<and> is_digit a \<and> is_digit b \<and> is_digit d1
                 \<and> g = [a, b])))"
  unfolding apps_pattern_unfold
  apply (simp only: one_ws one_ch star_ws[OF not_space_w] digits_part)
  apply (auto simp: py_def)
     apply blast+
  done

lemma re_search_iff:
  "re_search p s = Some g \<longleftrightarrow>
     (\<exists>i\<le>length s. match_here p (drop i s) False [] = Some g
        \<and> (\<forall>j<i. match_here p (drop j s) False [] = None))"
proof (induction s)
  case Nil
  then show ?case by simp
next
  case (Cons c cs)
  show ?case
  proof (cases "match_here p (c # cs) False []")
    case (Some g0)
    have "(\<exists>i\<le>length (c # cs). match_here p (drop i (c # cs)) False [] = Some g
        \<and> (\<forall>j<i. match_here p (drop j (c # cs)) False [] = None)) \<longleftrightarrow> g = g0"
    proof
      assume "\<exists>i\<le>length (c # cs). match_here p (drop i (c # cs)) False [] = Some g
        \<and> (\<forall>j<i. match_here p (drop j (c # cs)) False [] = None)"
      then obtain i where i: "match_here p (drop i (c # cs)) False [] = Some g"
        "\<forall>j<i. match_here p (drop j (c # cs)) False [] = None" by blast
      have "i = 0"
      proof (rule ccontr)
        assume "i \<noteq> 0"
        then have "match_here p (drop 0 (c # cs)) False [] = None" using i(2) by blast
        with Some show False by simp
      qed
      with i(1) Some show "g = g0" by simp
    next
      assume "g = g0"
      with Some have "match_here p (drop 0 (c # cs)) False [] = Some g
        \<and> (\<forall>j<0. match_here p (drop j (c # cs)) False [] = None)" by simp
      then show "\<exists>i\<le>length (c # cs). match_here p (drop i (c # cs)) False [] = Some g
        \<and> (\<forall>j<i. match_here p (drop j (c # cs)) False [] = None)" by blast
    qed
    with Some show ?thesis by auto
  next
    case None
    have "(\<exists>i\<le>length (c # cs). match_here p (drop i (c # cs)) False [] = Some g
        \<and> (\<forall>j<i. match_here p (drop j (c # cs)) False [] = None))
      \<longleftrightarrow> (\<exists>i\<le>length cs. match_here p (drop i cs) False [] = Some g
        \<and> (\<forall>j<i. match_here p (drop j cs) False [] = None))"
    proof
      assume "\<exists>i\<le>length (c # cs). match_here p (drop i (c # cs)) False [] = Some g
        \<and> (\<forall>j<i. match_here p (drop j (c # cs)) False [] = None)"
      then obtain i where i: "i \<le> length (c # cs)"
        "match_here p (drop i (c # cs)) False [] = Some g"
        "\<forall>j<i. match_here p (drop j (c # cs)) False [] = None" by blast
      from i(2) None obtain k where k: "i = Suc k" by (cases i) auto
      have "\<forall>j<k. match_here p (drop j cs) False [] = None"
      proof (intro allI impI)
        fix j assume "j < k"
        then have "Suc j < i" using k by simp
        with i(3) have "match_here p (drop (Suc j) (c # cs)) False [] = None" by blast
        then show "match_here p (drop j cs) False [] = None" by simp
      qed
      with i(1,2) k show "\<exists>i\<le>length cs. match_here p (drop i cs) False [] = Some g
        \<and> (\<forall>j<i. match_here p (drop j cs) False [] = None)" by auto
    next
      assume "\<exists>i\<le>length cs. match_here p (drop i cs) False [] = Some g
        \<and> (\<forall>j<i. match_here p (drop j cs) False [] = None)"
      then obtain i where i: "i \<le> length cs" "match_here p (drop i cs) False [] = Some g"
        "\<forall>j<i. match_here p (drop j cs) False [] = None" by blast
      have "\<forall>j<Suc i. match_here p (drop j (c # cs)) False [] = None"
      proof (intro allI impI)
        fix j assume "j < Suc i"
        then show "match_here p (drop j (c # cs)) False [] = None"
          using None i(3) by (cases j) auto
      qed
      with i(1,2) have "Suc i \<le> length (c # cs) \<and>
        match_here p (drop (Suc i) (c # cs)) False [] = Some g
        \<and> (\<forall>j<Suc i. match_here p (drop j (c # cs)) False [] = None)" by simp
      then show "\<exists>i\<le>length (c # cs). match_here p (drop i (c # cs)) False [] = Some g
        \<and> (\<forall>j<i. match_here p (drop j (c # cs)) False [] = None)" by blast
    qed
    with None Cons.IH show ?thesis by simp
  qed
qed

lemma match_here_matches_here:
  "match_here apps_pattern s False [] = Some g \<longleftrightarrow> matches_here s g"
proof
  assume "match_here apps_pattern s False [] = Some g"
  then obtain w ws t where s: "s = w # py ''started'' @ ws @ py ''web:'' @ t"
    "is_space w" "list_all is_space ws" and
    t: "(\<exists>a d1 r. t = a # 47 # d1 # r \<and> is_digit a \<and> is_digit d1 \<and> g = [a])
           \<or> (\<exists>a b d1 r. t = a # b # 47 # d1 # r \<and> is_digit a \<and> is_digit b \<and> is_digit d1
                 \<and> g = [a, b])"
    unfolding match_here_apps_pattern by blast
  from t obtain d1 r where "t = g @ py ''/'' @ [d1] @ r" "length g = 1 \<or> length g = 2"
    "list_all is_digit g" "is_digit d1"
    by (auto simp: py_def)
  with s have "s = w # py ''started'' @ ws @ py ''web:'' @ g @ py ''/'' @ [d1] @ r
        \<and> is_space w \<and> list_all is_space ws
        \<and> (length g = 1 \<or> length g = 2) \<and> list_all is_digit g
        \<and> (length [d1] = 1 \<or> length [d1] = 2) \<and> list_all is_digit [d1]" by simp
  then show "matches_here s g" unfolding matches_here_def by blast
next
  assume "matches_here s g"
  then obtain w ws d rest where s: "s = w # py ''started'' @ ws @ py ''web:'' @ g @ py ''/'' @ d @ rest"
    "is_space w" "list_all is_space ws" and
    g: "length g = 1 \<or> length g = 2" "list_all is_digit g" and
    d: "length d = 1 \<or> length d = 2" "list_all is_digit d"
    unfolding matches_here_def by blast
  from d obtain d1 d' where d1: "d = d1 # d'" "is_digit d1" by (cases d) auto
  define t where "t = g @ py ''/'' @ d @ rest"
  have "(\<exists>a d1 r. t = a # 47 # d1 # r \<and> is_digit a \<and> is_digit d1 \<and> g = [a])
           \<or> (\<exists>a b d1 r. t = a # b # 47 # d1 # r \<and> is_digit a \<and> is_digit b \<and> is_digit d1
                 \<and> g = [a, b])"
  proof (cases "length g = 1")
    case True
    then obtain a where "g = [a]" by (cases g) auto
    with g(2) d1 show ?thesis by (simp add: t_def py_def)
  next
    case False
    with g(1) have "length g = 2" by simp
    then obtain a b where "g = [a, b]"
      by (cases g; cases "tl g") auto
    with g(2) d1 show ?thesis by (simp add: t_def py_def)
  qed
  moreover have "s = w # py ''started'' @ ws @ py ''web:'' @ t" using s(1) by (simp add: t_def)
  ultimately show "match_here apps_pattern s False [] = Some g"
    unfolding match_here_apps_pattern using s(2,3) by blast
qed

lemma re_search_apps_pattern:
  "re_search apps_pattern line = Some g \<longleftrightarrow>
     (\<exists>i\<le>length line. matches_here (drop i line) g
        \<and> (\<forall>j<i. \<forall>g'. \<not> matches_here (drop j line) g'))"
  unfolding re_search_iff match_here_matches_here [symmetric]
  by (metis option.distinct(1) not_None_eq)

subsection \<open>The loops as sums\<close>

lemma count_services_eq:
  "count_services a ls = a + int (length (filter (\<lambda>l. l \<noteq> []) ls))"
  by (induction ls arbitrary: a) auto

lemma count_instances_eq:
  "count_instances a ls =
     a + (\<Sum>line\<leftarrow>ls. case re_search apps_pattern line of None \<Rightarrow> 0 | Some g \<Rightarrow> int_of_digits g)"
  by (induction ls arbitrary: a) (auto split: option.splits)

subsection \<open>\<open>get_cf_spaces\<close>\<close>

text \<open>
  C7. For every text that contains the token \<open>"name\n"\<close>, \<open>get_cf_spaces\<close> returns the
  lines of what follows the first occurrence of the token; on
  \<open>"...\nname\nspace-a\nspace-b\n"\<close> these are \<open>space-a\<close> and \<open>space-b\<close>; for every text
  without the token it raises the \<open>RuntimeError\<close> that carries the text.
\<close>

theorem get_cf_spaces_lines:
  "(t = pre @ py ''name\<newline>'' @ post \<and> \<not> sublist (py ''name\<newline>'') (pre @ py ''name'')
      \<longrightarrow> get_cf_spaces t = Inr (splitlines post))
   \<and> (\<not> sublist (py ''name\<newline>'') t
      \<longrightarrow> get_cf_spaces t =
            Inl (RuntimeError (py ''Error retrieving Cloud Foundry spaces:'') (PText t)))
   \<and> get_cf_spaces (py ''...\<newline>name\<newline>space-a\<newline>space-b\<newline>'')
       = Inr [py ''space-a'', py ''space-b'']"
proof (intro conjI impI)
  assume a: "t = pre @ py ''name\<newline>'' @ post \<and> \<not> sublist (py ''name\<newline>'') (pre @ py ''name'')"
  have "butlast (py ''name\<newline>'') = py ''name''" by (simp add: py_def)
  with a have "str_find (py ''name\<newline>'') t = Some (length pre)"
    by (intro str_find_first[of _ pre _ post]) auto
  moreover have "drop (length pre + length (py ''name\<newline>'')) t = post"
    using a by simp
  ultimately show "get_cf_spaces t = Inr (splitlines post)"
    by (simp add: get_cf_spaces_def str_contains_def split1_def index_def)
next
  assume "\<not> sublist (py ''name\<newline>'') t"
  then have "str_find (py ''name\<newline>'') t = None" by (rule str_find_absent)
  then show "get_cf_spaces t =
            Inl (RuntimeError (py ''Error retrieving Cloud Foundry spaces:'') (PText t))"
    by (simp add: get_cf_spaces_def str_contains_def)
next
  show "get_cf_spaces (py ''...\<newline>name\<newline>space-a\<newline>space-b\<newline>'')
       = Inr [py ''space-a'', py ''space-b'']"
    by (simp add: get_cf_spaces_def py_def str_contains_def startswith_def split1_def index_def
        splitlines_def is_linebreak_def)
qed

theorem get_cf_spaces_lines_witness:
  "get_cf_spaces (py ''Getting spaces...\<newline>\<newline>name\<newline>dev\<newline>name\<newline>'')
     = Inr [py ''dev'', py ''name'']
   \<and> get_cf_spaces (py ''FAILED\<newline>'')
     = Inl (RuntimeError (py ''Error retrieving Cloud Foundry spaces:'') (PText (py ''FAILED\<newline>'')))"
proof -
  have 1: "py ''Getting spaces...\<newline>\<newline>name\<newline>dev\<newline>name\<newline>''
             = py ''Getting spaces...\<newline>\<newline>'' @ py ''name\<newline>'' @ py ''dev\<newline>name\<newline>''"
    by (simp add: py_def)
  have 2: "\<not> sublist (py ''name\<newline>'') (py ''Getting spaces...\<newline>\<newline>'' @ py ''name'')"
    by (simp add: py_def sublist_Cons_right prefix_def)
  have 3: "\<not> sublist (py ''name\<newline>'') (py ''FAILED\<newline>'')"
    by (simp add: py_def sublist_Cons_right prefix_def)
  have 4: "splitlines (py ''dev\<newline>name\<newline>'') = [py ''dev'', py ''name'']"
    by (simp add: py_def splitlines_def is_linebreak_def)
  from get_cf_spaces_lines [of "py ''Getting spaces...\<newline>\<newline>name\<newline>dev\<newline>name\<newline>''"
      "py ''Getting spaces...\<newline>\<newline>''" "py ''dev\<newline>name\<newline>''"] 1 2
  have "get_cf_spaces (py ''Getting spaces...\<newline>\<newline>name\<newline>dev\<newline>name\<newline>'')
     = Inr [py ''dev'', py ''name'']"
    by (simp only: 4 simp_thms)
  moreover from get_cf_spaces_lines [of "py ''FAILED\<newline>''"] 3
  have "get_cf_spaces (py ''FAILED\<newline>'')
     = Inl (RuntimeError (py ''Error retrieving Cloud Foundry spaces:'') (PText (py ''FAILED\<newline>'')))"
    by simp
  ultimately show ?thesis by simp
qed

subsection \<open>\<open>get_services\<close>\<close>

text \<open>
  C10. For every text with no line equal to \<open>"No services found"\<close> and fewer than two
  non-empty lines, \<open>get_services\<close> returns a negative number; the empty text gives
  \<open>- 2\<close>.
\<close>

theorem get_services_negative:
  "(py ''No services found'' \<notin> set (splitlines t) \<and>
      length (filter (\<lambda>l. l \<noteq> []) (splitlines t)) < 2 \<longrightarrow> get_services t < 0)
   \<and> get_services [] = - 2"
  by (simp add: get_services_def count_services_eq splitlines_def)

theorem get_services_negative_witness:
  "py ''No services found'' \<notin> set (splitlines (py ''FAILED''))
   \<and> length (filter (\<lambda>l. l \<noteq> []) (splitlines (py ''FAILED''))) < 2
   \<and> get_services (py ''FAILED'') = - 1"
  using get_services_negative [of "py ''FAILED''"]
  by (simp add: get_services_def py_def splitlines_def is_linebreak_def)

subsection \<open>\<open>get_active_instances\<close>\<close>

text \<open>
  C2, as the code has it. The test \<open>"No apps found" in apps_output\<close> is made on the list
  of lines: for every text one of whose lines is exactly \<open>No apps found\<close>,
  \<open>get_active_instances\<close> returns 0, whatever else the text contains.
\<close>

theorem no_apps_line_gives_zero:
  "py ''No apps found'' \<in> set (splitlines t) \<Longrightarrow> get_active_instances t = Inr 0"
  by (simp add: get_active_instances_def)

theorem no_apps_line_gives_zero_witness:
  "py ''No apps found'' \<in> set (splitlines (py ''Getting apps...\<newline>\<newline>No apps found\<newline>''))
   \<and> get_active_instances (py ''Getting apps...\<newline>\<newline>No apps found\<newline>'') = Inr 0"
proof -
  have h: "py ''No apps found'' \<in> set (splitlines (py ''Getting apps...\<newline>\<newline>No apps found\<newline>''))"
    by (simp add: py_def splitlines_def is_linebreak_def)
  from h no_apps_line_gives_zero [OF h] show ?thesis by simp
qed

text \<open>
  C2 as stated fails: this text contains \<open>No apps found\<close> as a substring of its fourth
  line, no line is equal to it, and the count is 3.
\<close>

theorem no_apps_substring_counterexample:
  "str_contains (py ''No apps found'')
     (py ''Getting apps...\<newline>\<newline>name   requested state   processes\<newline>app   started   web:3/5 No apps found'')
   \<and> get_active_instances
     (py ''Getting apps...\<newline>\<newline>name   requested state   processes\<newline>app   started   web:3/5 No apps found'')
     = Inr 3"
  by (simp add: get_active_instances_def splitlines_def is_linebreak_def index_def startswith_def
      apps_pattern_def py_def is_space_def is_digit_def int_of_digits_def str_contains_def)

text \<open>
  C3. The docstring promises \<open>RuntimeError\<close> when the expected output is not found. With
  fewer than three lines and no marker, \<open>apps_output[2]\<close> raises \<open>IndexError\<close> before
  the \<open>else\<close> branch is reached: so for the output \<open>FAILED\<close> and for the empty output.
\<close>

theorem get_active_instances_short_output:
  "\<not> str_contains (py ''No apps found'') (py ''FAILED\<newline>'')
   \<and> length (splitlines (py ''FAILED\<newline>'')) < 3
   \<and> get_active_instances (py ''FAILED\<newline>'') = Inl IndexError
   \<and> get_active_instances [] = Inl IndexError"
  by (simp add: get_active_instances_def splitlines_def is_linebreak_def index_def startswith_def
      py_def str_contains_def)

text \<open>With three lines or more the error is the \<open>RuntimeError\<close> of the \<open>else\<close> branch.\<close>

lemma get_active_instances_format_error:
  assumes "py ''No apps found'' \<notin> set (splitlines t)"
      and "2 < length (splitlines t)"
      and "\<not> startswith (splitlines t ! 2) (py ''name'')"
  shows "get_active_instances t =
           Inl (RuntimeError (py ''Error retrieving applications data'') (PLines (splitlines t)))"
  using assms by (simp add: get_active_instances_def index_def)

text \<open>
  C5. On an apps table, that is, in the \<open>elif\<close> branch (no line is the marker, and the
  third line starts with \<open>name\<close>), \<open>get_active_instances\<close> returns the sum, over the
  lines where the pattern is found, of the number in the group of the match; lines
  without a match add nothing. The pattern is found in a line where a whitespace
  character, \<open>started\<close>, optional whitespace, \<open>web:\<close>, one or two digits, \<open>/\<close> and one or
  two digits follow each other, and the group is the first number of the leftmost such
  place. On a table with the lines \<open>myapp   started web:2/3 ...\<close> and
  \<open>otherapp   started web:0/1 ...\<close> the result is 2.
\<close>

theorem get_active_instances_sum:
  "(py ''No apps found'' \<notin> set (splitlines t) \<and> 2 < length (splitlines t)
      \<and> startswith (splitlines t ! 2) (py ''name'')
      \<longrightarrow> get_active_instances t =
            Inr (\<Sum>line\<leftarrow>splitlines t.
                   case re_search apps_pattern line of None \<Rightarrow> 0 | Some g \<Rightarrow> int_of_digits g))
   \<and> (re_search apps_pattern line = Some g \<longleftrightarrow>
        (\<exists>i\<le>length line. matches_here (drop i line) g
           \<and> (\<forall>j<i. \<forall>g'. \<not> matches_here (drop j line) g')))
   \<and> get_active_instances
        (py ''Getting apps...\<newline>\<newline>name   requested state   processes\<newline>myapp   started web:2/3 ...\<newline>otherapp   started web:0/1 ...\<newline>oldapp   stopped web:0/1 ...\<newline>'')
       = Inr 2"
proof (intro conjI impI)
  assume "py ''No apps found'' \<notin> set (splitlines t) \<and> 2 < length (splitlines t)
      \<and> startswith (splitlines t ! 2) (py ''name'')"
  then show "get_active_instances t =
            Inr (\<Sum>line\<leftarrow>splitlines t.
                   case re_search apps_pattern line of None \<Rightarrow> 0 | Some g \<Rightarrow> int_of_digits g)"
    by (simp add: get_active_instances_def index_def count_instances_eq)
next
  show "re_search apps_pattern line = Some g \<longleftrightarrow>
        (\<exists>i\<le>length line. matches_here (drop i line) g
           \<and> (\<forall>j<i. \<forall>g'. \<not> matches_here (drop j line) g'))"
    by (rule re_search_apps_pattern)
next
  show "get_active_instances
        (py ''Getting apps...\<newline>\<newline>name   requested state   processes\<newline>myapp   started web:2/3 ...\<newline>otherapp   started web:0/1 ...\<newline>oldapp   stopped web:0/1 ...\<newline>'')
       = Inr 2"
    by (simp add: get_active_instances_def splitlines_def is_linebreak_def index_def startswith_def
      apps_pattern_def py_def is_space_def is_digit_def int_of_digits_def)
qed

theorem get_active_instances_sum_witness:
  "py ''No apps found'' \<notin> set (splitlines (py ''Getting apps...\<newline>\<newline>name\<newline>a started web:12/12\<newline>b  started   web:7/9''))
   \<and> 2 < length (splitlines (py ''Getting apps...\<newline>\<newline>name\<newline>a started web:12/12\<newline>b  started   web:7/9''))
   \<and> startswith (splitlines (py ''Getting apps...\<newline>\<newline>name\<newline>a started web:12/12\<newline>b  started   web:7/9'') ! 2) (py ''name'')
   \<and> get_active_instances (py ''Getting apps...\<newline>\<newline>name\<newline>a started web:12/12\<newline>b  started   web:7/9'') = Inr 19"
  using get_active_instances_sum [of "py ''Getting apps...\<newline>\<newline>name\<newline>a started web:12/12\<newline>b  started   web:7/9''"]
  by (simp add: splitlines_def is_linebreak_def startswith_def
      apps_pattern_def py_def is_space_def is_digit_def int_of_digits_def)

section \<open>Properties of the footprint calculator\<close>

subsection \<open>Rounding to the nearest integer\<close>

lemma rhe_bounds: "\<bar>of_int (round_half_even x) - x\<bar> \<le> 1 / 2"
proof -
  have "of_int \<lfloor>x\<rfloor> \<le> x" "x < of_int \<lfloor>x\<rfloor> + 1" by linarith+
  then show ?thesis
    by (auto simp: round_half_even_def Let_def)
qed

lemma rhe_unique:
  assumes "\<bar>x - of_int m\<bar> < 1 / 2"
  shows "round_half_even x = m"
proof -
  have "\<bar>(of_int (round_half_even x) :: rat) - of_int m\<bar> < 1"
    using rhe_bounds[of x] assms by linarith
  then have "\<bar>(of_int (round_half_even x - m) :: rat)\<bar> < 1" by simp
  then have "\<bar>round_half_even x - m\<bar> < 1"
    by (metis of_int_abs of_int_less_1_iff)
  then show ?thesis by simp
qed

lemma rhe_of_int [simp]: "round_half_even (of_int k) = k"
  by (rule rhe_unique) simp

lemma rhe_mono:
  assumes "x \<le> y"
  shows "round_half_even x \<le> round_half_even y"
proof (cases "x = y")
  case False
  with assms have "x < y" by simp
  then have "(of_int (round_half_even x) :: rat) < of_int (round_half_even y) + 1"
    using rhe_bounds[of x] rhe_bounds[of y] by linarith
  then have "(of_int (round_half_even x) :: rat) < of_int (round_half_even y + 1)" by simp
  then have "round_half_even x < round_half_even y + 1" by (simp only: of_int_less_iff)
  then show ?thesis by simp
qed simp

lemma rhe_ge: "of_int k \<le> x \<Longrightarrow> k \<le> round_half_even x"
  using rhe_mono[of "of_int k" x] by simp

lemma rhe_le: "x \<le> of_int k \<Longrightarrow> round_half_even x \<le> k"
  using rhe_mono[of x "of_int k"] by simp

subsection \<open>The binary exponent\<close>

lemma ilog2_bracket:
  assumes "0 < x"
  shows "2 powi (ilog2 x) \<le> x \<and> x < 2 powi (ilog2 x + 1)"
proof (cases "1 \<le> x")
  case True
  define n where "n = nat \<lfloor>x\<rfloor>"
  define k where "k = floorlog 2 n"
  have n: "0 < n" "of_nat n \<le> x" "x < of_nat n + 1"
    using True by (auto simp: n_def) linarith+
  from floorlog_bounds[of n 2] n(1) have b: "2 ^ (k - 1) \<le> n" "n < 2 ^ k"
    by (auto simp: k_def)
  have kpos: "0 < k" using n(1) by (simp add: k_def floorlog_def)
  have il: "ilog2 x = int k - 1" using True by (simp add: ilog2_def k_def n_def)
  have e1: "(2::rat) powi (int k - 1) = 2 ^ (k - 1)"
    using kpos by (simp add: power_int_def nat_diff_distrib')
  have e2: "(2::rat) powi (int k - 1 + 1) = 2 ^ k" by (simp add: power_int_def)
  have lo: "(2::rat) ^ (k - 1) \<le> of_nat n" using b(1)
    by (metis of_nat_le_iff of_nat_numeral of_nat_power)
  have hi: "(of_nat n :: rat) + 1 \<le> 2 ^ k"
  proof -
    have "n + 1 \<le> 2 ^ k" using b(2) by simp
    then have "(of_nat (n + 1) :: rat) \<le> of_nat (2 ^ k)" by (simp only: of_nat_le_iff)
    then show ?thesis by simp
  qed
  have "(2::rat) ^ (k - 1) \<le> x" using lo n(2) by linarith
  moreover have "x < 2 ^ k" using hi n(3) by linarith
  ultimately show ?thesis unfolding il e1 e2 by simp
next
  case False
  define m where "m = \<lceil>1 / x\<rceil>"
  define n where "n = nat (m - 1)"
  define k where "k = floorlog 2 n"
  have inv: "1 < 1 / x" using False assms by simp
  have m: "2 \<le> m" "1 / x \<le> of_int m" "of_int m - 1 < 1 / x"
    using inv by (auto simp: m_def) linarith+
  have n: "0 < n" "int n = m - 1" using m(1) by (auto simp: n_def)
  from floorlog_bounds[of n 2] n(1) have b: "2 ^ (k - 1) \<le> n" "n < 2 ^ k"
    by (auto simp: k_def)
  have kpos: "0 < k" using n(1) by (simp add: k_def floorlog_def)
  have il: "ilog2 x = - int k" using False by (simp add: ilog2_def k_def n_def m_def)
  have e1: "(2::rat) powi (- int k) = 1 / 2 ^ k"
    by (simp add: power_int_def field_simps)
  have e2: "(2::rat) powi (- int k + 1) = 1 / 2 ^ (k - 1)"
    using kpos by (cases k) (simp_all add: power_int_def field_simps)
  have nr: "(of_nat n :: rat) = of_int m - 1" using n(2)
    by (metis of_int_1 of_int_diff of_int_of_nat_eq)
  have "(2::rat) ^ (k - 1) \<le> of_nat n" using b(1)
    by (metis of_nat_le_iff of_nat_numeral of_nat_power)
  then have u: "(2::rat) ^ (k - 1) < 1 / x" using nr m(3) by linarith
  have "(of_nat n :: rat) + 1 \<le> 2 ^ k"
  proof -
    have "n + 1 \<le> 2 ^ k" using b(2) by simp
    then have "(of_nat (n + 1) :: rat) \<le> of_nat (2 ^ k)" by (simp only: of_nat_le_iff)
    then show ?thesis by simp
  qed
  then have l: "1 / x \<le> 2 ^ k" using nr m(2) by linarith
  have "1 / 2 ^ k \<le> x"
    using l assms by (simp add: field_simps)
  moreover have "x < 1 / 2 ^ (k - 1)"
    using u assms by (simp add: field_simps)
  ultimately show ?thesis using il e1 e2 by simp
qed

lemma powi2_mono: "a \<le> b \<Longrightarrow> (2::rat) powi a \<le> 2 powi b"
  by (rule power_int_increasing) simp_all

lemma powi2_pos [simp]: "0 < (2::rat) powi a"
  by (simp add: zero_less_power_int)

lemma ilog2_unique:
  assumes "2 powi k \<le> x" "x < 2 powi (k + 1)"
  shows "ilog2 x = k"
proof -
  have "0 < x" using assms(1) powi2_pos[of k] by linarith
  from ilog2_bracket[OF this] have b: "2 powi (ilog2 x) \<le> x" "x < 2 powi (ilog2 x + 1)" by auto
  have "\<not> ilog2 x < k"
  proof
    assume "ilog2 x < k"
    then have "(2::rat) powi (ilog2 x + 1) \<le> 2 powi k" by (intro powi2_mono) simp
    with b(2) assms(1) show False by linarith
  qed
  moreover have "\<not> k < ilog2 x"
  proof
    assume "k < ilog2 x"
    then have "(2::rat) powi (k + 1) \<le> 2 powi (ilog2 x)" by (intro powi2_mono) simp
    with b(1) assms(2) show False by linarith
  qed
  ultimately show ?thesis by simp
qed

lemma ilog2_mono:
  assumes "0 < x" "x \<le> y"
  shows "ilog2 x \<le> ilog2 y"
proof (rule ccontr)
  assume "\<not> ilog2 x \<le> ilog2 y"
  then have "(2::rat) powi (ilog2 y + 1) \<le> 2 powi (ilog2 x)" by (intro powi2_mono) simp
  moreover have "0 < y" using assms by simp
  ultimately show False
    using ilog2_bracket[OF assms(1)] ilog2_bracket[OF \<open>0 < y\<close>] assms(2) by linarith
qed

subsection \<open>Rounding to binary64\<close>

text \<open>
  A rounding is checked, not searched: for \<open>x\<close> between \<open>2 ^ k\<close> and \<open>2 ^ (k + 1)\<close>, an
  integer \<open>m\<close> closer than a half to \<open>x / 2 ^ (k - 52)\<close> is the mantissa of \<open>to_double x\<close>.
\<close>

lemma to_double_cert:
  assumes "2 powi k \<le> x" "x < 2 powi (k + 1)" "- 1022 \<le> k"
      and "\<bar>x / 2 powi (k - 52) - of_int m\<bar> < 1 / 2"
      and "(of_int m :: rat) * 2 powi (k - 52) < 2 ^ 1024"
  shows "to_double x = Finite (of_int m * 2 powi (k - 52))"
proof -
  have xpos: "0 < x" using assms(1) powi2_pos[of k] by linarith
  have il: "ilog2 \<bar>x\<bar> = k" using xpos assms(1,2) by (simp add: ilog2_unique)
  have e: "max (ilog2 \<bar>x\<bar> - 52) (- 1074) = k - 52" using il assms(3) by simp
  have r: "round_half_even (x / 2 powi (k - 52)) = m" using assms(4) by (rule rhe_unique)
  have "0 \<le> x / 2 powi (k - 52)" using xpos by simp
  then have "0 \<le> m" using rhe_ge[of 0 "x / 2 powi (k - 52)"] r by simp
  then have "0 \<le> (of_int m :: rat) * 2 powi (k - 52)" by simp
  then have "\<not> 2 ^ 1024 \<le> \<bar>(of_int m :: rat) * 2 powi (k - 52)\<bar>"
    using assms(5) by linarith
  then show ?thesis using xpos e r by (simp add: to_double_def rounded_def Let_def)
qed

lemma to_double_rounded:
  "0 < x \<Longrightarrow> to_double x = (if 2 ^ 1024 \<le> \<bar>rounded x\<bar> then PInf else Finite (rounded x))"
  by (simp add: to_double_def)

lemma rounded_nonneg: "0 < x \<Longrightarrow> 0 \<le> rounded x"
proof -
  assume "0 < x"
  then have "0 \<le> x / 2 powi (max (ilog2 \<bar>x\<bar> - 52) (- 1074))" by simp
  from rhe_ge[of 0, simplified, OF this] show ?thesis by (simp add: rounded_def Let_def)
qed

lemma powi2_add: "(2::rat) powi (a + b) = 2 powi a * 2 powi b"
  by (simp add: power_int_add)

lemma rounded_mono:
  assumes "0 < x" "x \<le> y"
  shows "rounded x \<le> rounded y"
proof -
  define ex where "ex = max (ilog2 \<bar>x\<bar> - 52) (- 1074)"
  define ey where "ey = max (ilog2 \<bar>y\<bar> - 52) (- 1074)"
  have ypos: "0 < y" using assms by simp
  have il: "ilog2 \<bar>x\<bar> \<le> ilog2 \<bar>y\<bar>" using assms ilog2_mono[of x y] by simp
  then have le: "ex \<le> ey" by (simp add: ex_def ey_def)
  have rx: "rounded x = of_int (round_half_even (x / 2 powi ex)) * 2 powi ex"
    by (simp add: rounded_def ex_def Let_def)
  have ry: "rounded y = of_int (round_half_even (y / 2 powi ey)) * 2 powi ey"
    by (simp add: rounded_def ey_def Let_def)
  show ?thesis
  proof (cases "ex = ey")
    case True
    have "x / 2 powi ey \<le> y / 2 powi ey" using assms(2) by (simp add: divide_right_mono)
    then have "round_half_even (x / 2 powi ey) \<le> round_half_even (y / 2 powi ey)"
      by (rule rhe_mono)
    then have "(of_int (round_half_even (x / 2 powi ey)) :: rat)
                 \<le> of_int (round_half_even (y / 2 powi ey))" by simp
    then show ?thesis unfolding rx ry True by (simp add: mult_right_mono)
  next
    case False
    with le have lt: "ex < ey" by simp
    have "x < 2 powi (ilog2 x + 1)" using ilog2_bracket[OF assms(1)] by simp
    also have "\<dots> \<le> 2 powi (ex + 53)"
      using assms(1) by (intro powi2_mono) (simp add: ex_def)
    finally have "x < 2 powi ex * 2 ^ 53" by (simp add: powi2_add)
    then have "x / 2 powi ex < 2 ^ 53" by (simp add: field_simps)
    then have "x / 2 powi ex \<le> of_int (2 ^ 53)" by simp
    then have "round_half_even (x / 2 powi ex) \<le> 2 ^ 53" by (rule rhe_le)
    then have "(of_int (round_half_even (x / 2 powi ex)) :: rat) \<le> of_int (2 ^ 53)"
      by (simp only: of_int_le_iff)
    then have "rounded x \<le> 2 ^ 53 * 2 powi ex" unfolding rx by (simp add: mult_right_mono)
    also have "\<dots> = 2 powi (ex + 53)" by (simp add: powi2_add)
    also have "\<dots> \<le> 2 powi (ey + 52)" using lt by (intro powi2_mono) simp
    also have "\<dots> \<le> rounded y"
    proof -
      have "ey = ilog2 y - 52" using lt ypos unfolding ey_def ex_def by (simp add: max_def split: if_splits)
      then have "2 powi (ey + 52) \<le> y" using ilog2_bracket[OF ypos] by simp
      then have "2 powi ey * 2 ^ 52 \<le> y" by (simp add: powi2_add)
      then have "of_int (2 ^ 52) \<le> y / 2 powi ey" by (simp add: field_simps)
      then have "2 ^ 52 \<le> round_half_even (y / 2 powi ey)" by (rule rhe_ge)
      then have "(of_int (2 ^ 52) :: rat) \<le> of_int (round_half_even (y / 2 powi ey))"
        by (simp only: of_int_le_iff)
      then have "2 ^ 52 * 2 powi ey \<le> rounded y" unfolding ry by (simp add: mult_right_mono)
      then show ?thesis by (simp add: powi2_add mult.commute)
    qed
    finally show ?thesis .
  qed
qed

lemma to_double_mono:
  assumes "0 \<le> x" "x \<le> y"
  shows "fle (to_double x) (to_double y)"
proof (cases "x = 0")
  case True
  show ?thesis
  proof (cases "y = 0")
    case True
    with \<open>x = 0\<close> show ?thesis by (simp add: to_double_def)
  next
    case False
    with assms True have "0 < y" by simp
    then show ?thesis using True rounded_nonneg[of y]
      by (simp add: to_double_rounded) (simp add: to_double_def)
  qed
next
  case False
  with assms have pos: "0 < x" "0 < y" by simp_all
  from rounded_mono[OF pos(1) assms(2)] rounded_nonneg[OF pos(1)] rounded_nonneg[OF pos(2)]
  show ?thesis using pos by (auto simp: to_double_rounded)
qed

lemma to_double_nonneg:
  assumes "0 \<le> x"
  shows "to_double x = PInf \<or> (\<exists>y. to_double x = Finite y \<and> 0 \<le> y)"
proof (cases "x = 0")
  case True then show ?thesis by (simp add: to_double_def)
next
  case False
  with assms have "0 < x" by simp
  then show ?thesis using rounded_nonneg[of x] by (simp add: to_double_rounded)
qed

lemma rounded_error:
  assumes "2 powi (- 1022) \<le> x"
  shows "\<bar>rounded x - x\<bar> \<le> x / 2 ^ 53"
proof -
  have xpos: "0 < x" using assms powi2_pos[of "- 1022"] by linarith
  define e where "e = ilog2 x - 52"
  have "ilog2 (2 powi (- 1022)) \<le> ilog2 x" using assms by (intro ilog2_mono) simp_all
  moreover have "ilog2 (2 powi (- 1022)) = - 1022"
    by (intro ilog2_unique) (simp_all add: powi2_add)
  ultimately have "max (ilog2 \<bar>x\<bar> - 52) (- 1074) = e" using xpos by (simp add: e_def)
  then have rx: "rounded x = of_int (round_half_even (x / 2 powi e)) * 2 powi e"
    by (simp add: rounded_def Let_def)
  have "\<bar>of_int (round_half_even (x / 2 powi e)) - x / 2 powi e\<bar> * 2 powi e \<le> 1 / 2 * 2 powi e"
    using rhe_bounds[of "x / 2 powi e"] by (intro mult_right_mono) simp_all
  moreover have "\<bar>of_int (round_half_even (x / 2 powi e)) - x / 2 powi e\<bar> * 2 powi e
       = \<bar>rounded x - x\<bar>"
  proof -
    have "\<bar>of_int (round_half_even (x / 2 powi e)) - x / 2 powi e\<bar> * 2 powi e
       = \<bar>(of_int (round_half_even (x / 2 powi e)) - x / 2 powi e) * 2 powi e\<bar>"
      by (simp add: abs_mult)
    also have "(of_int (round_half_even (x / 2 powi e)) - x / 2 powi e) * 2 powi e = rounded x - x"
      unfolding rx by (simp add: field_simps)
    finally show ?thesis .
  qed
  ultimately have b: "\<bar>rounded x - x\<bar> \<le> 2 powi e / 2" by simp
  have "2 powi (e + 52) \<le> x" using ilog2_bracket[OF xpos] by (simp add: e_def)
  then have "2 powi e * 2 ^ 52 \<le> x" by (simp add: powi2_add)
  then have "2 powi e / 2 \<le> x / 2 ^ 53" by (simp add: field_simps)
  with b show ?thesis by linarith
qed

lemma to_double_400: "to_double 400 = Finite 400"
  using to_double_cert [of 8 400 "400 * 2 ^ 44"] by (simp add: power_int_minus)

lemma float_of_int_400: "float_of_int 400 = Inr (Finite 400)"
  using to_double_400 by (simp add: float_of_int_def)

lemma calculate_footprint_cert:
  assumes "to_double (of_int n / 65) = Finite q" "to_double (q * 400) = Finite w"
  shows "calculate_footprint n = Inr (Finite w)"
  using assms float_of_int_400
  by (simp add: calculate_footprint_def int_truediv_def float_mul_int_def bind_def
      INSTANCES_PER_SERVER_def WATT_PER_SERVER_def)

text \<open>The values of \<open>calculate_footprint\<close> used below, each with its two roundings.\<close>

lemma cf_1: "calculate_footprint 1 = Inr (Finite (6928614811339225 / 2 ^ 50))"
proof -
  have q: "to_double (1 / 65) = Finite (277144592453569 / 2 ^ 54)"
    using to_double_cert [of "-7" "1 / 65" "8868626958514208"] by (simp add: power_int_minus)
  have w: "to_double ((277144592453569 / 2 ^ 54) * 400) = Finite (6928614811339225 / 2 ^ 50)"
    using to_double_cert [of "2" "(277144592453569 / 2 ^ 54) * 400" "6928614811339225"] by (simp add: power_int_minus)
  show ?thesis
  proof (rule calculate_footprint_cert)
    show "to_double (of_int 1 / 65) = Finite (277144592453569 / 2 ^ 54)" using q by simp
    show "to_double ((277144592453569 / 2 ^ 54) * 400) = Finite (6928614811339225 / 2 ^ 50)" by (rule w)
  qed
qed

lemma cf_12: "calculate_footprint 12 = Inr (Finite (5196461108504419 / 2 ^ 46))"
proof -
  have q: "to_double (12 / 65) = Finite (831433777360707 / 2 ^ 52)"
    using to_double_cert [of "-3" "12 / 65" "6651470218885656"] by (simp add: power_int_minus)
  have w: "to_double ((831433777360707 / 2 ^ 52) * 400) = Finite (5196461108504419 / 2 ^ 46)"
    using to_double_cert [of "6" "(831433777360707 / 2 ^ 52) * 400" "5196461108504419"] by (simp add: power_int_minus)
  show ?thesis
  proof (rule calculate_footprint_cert)
    show "to_double (of_int 12 / 65) = Finite (831433777360707 / 2 ^ 52)" using q by simp
    show "to_double ((831433777360707 / 2 ^ 52) * 400) = Finite (5196461108504419 / 2 ^ 46)" by (rule w)
  qed
qed

lemma cf_13: "calculate_footprint 13 = Inr (Finite (80))"
proof -
  have q: "to_double (13 / 65) = Finite (3602879701896397 / 2 ^ 54)"
    using to_double_cert [of "-3" "13 / 65" "7205759403792794"] by (simp add: power_int_minus)
  have w: "to_double ((3602879701896397 / 2 ^ 54) * 400) = Finite (80)"
    using to_double_cert [of "6" "(3602879701896397 / 2 ^ 54) * 400" "5629499534213120"] by (simp add: power_int_minus)
  show ?thesis
  proof (rule calculate_footprint_cert)
    show "to_double (of_int 13 / 65) = Finite (3602879701896397 / 2 ^ 54)" using q by simp
    show "to_double ((3602879701896397 / 2 ^ 54) * 400) = Finite (80)" by (rule w)
  qed
qed

lemma cf_3: "calculate_footprint 3 = Inr (Finite (5196461108504419 / 2 ^ 48))"
proof -
  have q: "to_double (3 / 65) = Finite (831433777360707 / 2 ^ 54)"
    using to_double_cert [of "-5" "3 / 65" "6651470218885656"] by (simp add: power_int_minus)
  have w: "to_double ((831433777360707 / 2 ^ 54) * 400) = Finite (5196461108504419 / 2 ^ 48)"
    using to_double_cert [of "4" "(831433777360707 / 2 ^ 54) * 400" "5196461108504419"] by (simp add: power_int_minus)
  show ?thesis
  proof (rule calculate_footprint_cert)
    show "to_double (of_int 3 / 65) = Finite (831433777360707 / 2 ^ 54)" using q by simp
    show "to_double ((831433777360707 / 2 ^ 54) * 400) = Finite (5196461108504419 / 2 ^ 48)" by (rule w)
  qed
qed

lemma cf_15: "calculate_footprint 15 = Inr (Finite (6495576385630523 / 2 ^ 46))"
proof -
  have q: "to_double (15 / 65) = Finite (4157168886803535 / 2 ^ 54)"
    using to_double_cert [of "-3" "15 / 65" "8314337773607070"] by (simp add: power_int_minus)
  have w: "to_double ((4157168886803535 / 2 ^ 54) * 400) = Finite (6495576385630523 / 2 ^ 46)"
    using to_double_cert [of "6" "(4157168886803535 / 2 ^ 54) * 400" "6495576385630523"] by (simp add: power_int_minus)
  show ?thesis
  proof (rule calculate_footprint_cert)
    show "to_double (of_int 15 / 65) = Finite (4157168886803535 / 2 ^ 54)" using q by simp
    show "to_double ((4157168886803535 / 2 ^ 54) * 400) = Finite (6495576385630523 / 2 ^ 46)" by (rule w)
  qed
qed

lemma cf_10: "calculate_footprint 10 = Inr (Finite (8660768514174031 / 2 ^ 47))"
proof -
  have q: "to_double (10 / 65) = Finite (1385722962267845 / 2 ^ 53)"
    using to_double_cert [of "-3" "10 / 65" "5542891849071380"] by (simp add: power_int_minus)
  have w: "to_double ((1385722962267845 / 2 ^ 53) * 400) = Finite (8660768514174031 / 2 ^ 47)"
    using to_double_cert [of "5" "(1385722962267845 / 2 ^ 53) * 400" "8660768514174031"] by (simp add: power_int_minus)
  show ?thesis
  proof (rule calculate_footprint_cert)
    show "to_double (of_int 10 / 65) = Finite (1385722962267845 / 2 ^ 53)" using q by simp
    show "to_double ((1385722962267845 / 2 ^ 53) * 400) = Finite (8660768514174031 / 2 ^ 47)" by (rule w)
  qed
qed

lemma cf_55: "calculate_footprint 55 = Inr (Finite (2977139176747323 / 2 ^ 43))"
proof -
  have q: "to_double (55 / 65) = Finite (7621476292473147 / 2 ^ 53)"
    using to_double_cert [of "-1" "55 / 65" "7621476292473147"] by (simp add: power_int_minus)
  have w: "to_double ((7621476292473147 / 2 ^ 53) * 400) = Finite (2977139176747323 / 2 ^ 43)"
    using to_double_cert [of "8" "(7621476292473147 / 2 ^ 53) * 400" "5954278353494646"] by (simp add: power_int_minus)
  show ?thesis
  proof (rule calculate_footprint_cert)
    show "to_double (of_int 55 / 65) = Finite (7621476292473147 / 2 ^ 53)" using q by simp
    show "to_double ((7621476292473147 / 2 ^ 53) * 400) = Finite (2977139176747323 / 2 ^ 43)" by (rule w)
  qed
qed

lemma cf_65: "calculate_footprint 65 = Inr (Finite (400))"
proof -
  have q: "to_double (65 / 65) = Finite (1)"
    using to_double_cert [of "0" "65 / 65" "4503599627370496"] by (simp add: power_int_minus)
  have w: "to_double ((1) * 400) = Finite (400)"
    using to_double_cert [of "8" "(1) * 400" "7036874417766400"] by (simp add: power_int_minus)
  show ?thesis
  proof (rule calculate_footprint_cert)
    show "to_double (of_int 65 / 65) = Finite (1)" using q by simp
    show "to_double ((1) * 400) = Finite (400)" by (rule w)
  qed
qed

lemma cf_130: "calculate_footprint 130 = Inr (Finite (800))"
proof -
  have q: "to_double (130 / 65) = Finite (2)"
    using to_double_cert [of "1" "130 / 65" "4503599627370496"] by (simp add: power_int_minus)
  have w: "to_double ((2) * 400) = Finite (800)"
    using to_double_cert [of "9" "(2) * 400" "7036874417766400"] by (simp add: power_int_minus)
  show ?thesis
  proof (rule calculate_footprint_cert)
    show "to_double (of_int 130 / 65) = Finite (2)" using q by simp
    show "to_double ((2) * 400) = Finite (800)" by (rule w)
  qed
qed

lemma calculate_footprint_unfold:
  "calculate_footprint n =
     (case to_double (of_int n / 65) of
        Finite q \<Rightarrow> Inr (fmul (Finite q) (Finite 400))
      | _ \<Rightarrow> Inl OverflowError)"
  using float_of_int_400
  by (simp add: calculate_footprint_def int_truediv_def float_mul_int_def bind_def
      INSTANCES_PER_SERVER_def WATT_PER_SERVER_def split: pyfloat.splits)

lemma calculate_footprint_mono:
  assumes "0 \<le> n" "n \<le> m" "calculate_footprint m = Inr y"
  shows "\<exists>x. calculate_footprint n = Inr x \<and> fle x y"
proof -
  from assms(3) obtain qm where qm: "to_double (of_int m / 65) = Finite qm"
    and y: "y = to_double (qm * 400)"
    by (auto simp: calculate_footprint_unfold split: pyfloat.splits)
  have le: "(0::rat) \<le> of_int n / 65" "(of_int n :: rat) / 65 \<le> of_int m / 65"
    using assms(1,2) by (simp_all add: divide_right_mono)
  from to_double_mono[OF le] qm have f: "fle (to_double (of_int n / 65)) (Finite qm)" by simp
  from to_double_nonneg[OF le(1)] f obtain qn where
    qn: "to_double (of_int n / 65) = Finite qn" "0 \<le> qn" by auto
  with f have "qn \<le> qm" by simp
  with qn(2) have "0 \<le> qn * 400" "qn * 400 \<le> qm * 400" by simp_all
  from to_double_mono[OF this] have "fle (to_double (qn * 400)) y" by (simp add: y)
  with qn(1) show ?thesis by (simp add: calculate_footprint_unfold)
qed

lemma powi_m1022: "(2::rat) powi (- 1022) \<le> 1 / 65"
  by (simp add: power_int_minus field_simps)

lemma to_double_normal:
  assumes "2 powi (- 1022) \<le> x" "x < 2 ^ 1023"
  shows "\<exists>r. to_double x = Finite r \<and> \<bar>r - x\<bar> \<le> x / 2 ^ 53"
proof -
  have xpos: "0 < x" using assms(1) powi2_pos[of "- 1022"] by linarith
  from rounded_error[OF assms(1)] have e: "\<bar>rounded x - x\<bar> \<le> x / 2 ^ 53" .
  have "x / 2 ^ 53 \<le> x" using xpos by (simp add: field_simps)
  with e have "\<bar>rounded x\<bar> \<le> 2 * x" by linarith
  also have "\<dots> < 2 ^ 1024" using assms(2) by simp
  finally have "\<not> 2 ^ 1024 \<le> \<bar>rounded x\<bar>" by simp
  with e xpos show ?thesis by (simp add: to_double_rounded)
qed

lemma calculate_footprint_near_linear:
  assumes "0 \<le> n" "n < 2 ^ 1000"
  shows "\<exists>v. calculate_footprint n = Inr (Finite v)
            \<and> \<bar>v - 400 * of_int n / 65\<bar> \<le> (400 * of_int n / 65) / 2 ^ 51"
proof (cases "n = 0")
  case True
  then show ?thesis by (simp add: calculate_footprint_unfold to_double_def)
next
  case False
  define x :: rat where "x = of_int n / 65"
  have n1: "1 \<le> n" using assms(1) False by simp
  then have "(1::rat) \<le> of_int n" by simp
  then have x1: "1 / 65 \<le> x" by (simp add: x_def divide_right_mono)
  have "(of_int n :: rat) < of_int (2 ^ 1000)" using assms(2) by (simp only: of_int_less_iff)
  then have xu: "x < 2 ^ 1000" by (simp add: x_def)
  have "2 powi (- 1022) \<le> x" using powi_m1022 x1 by linarith
  moreover have "x < 2 ^ 1023" using xu by simp
  ultimately obtain q where q: "to_double x = Finite q" "\<bar>q - x\<bar> \<le> x / 2 ^ 53"
    using to_double_normal by blast
  have xpos: "0 < x" using x1 by simp
  have small: "x / 2 ^ 53 \<le> x / 2" using xpos by (simp add: field_simps)
  have ql: "x / 2 \<le> q" "q \<le> 2 * x" using q(2) small xpos by linarith+
  have "2 powi (- 1022) \<le> q * 400" using powi_m1022 x1 ql(1) by linarith
  moreover have "q * 400 < 2 ^ 1023" using ql(2) xu by simp
  ultimately obtain w where w: "to_double (q * 400) = Finite w"
    "\<bar>w - q * 400\<bar> \<le> q * 400 / 2 ^ 53"
    using to_double_normal by blast
  have cf: "calculate_footprint n = Inr (Finite w)"
    using q(1) w(1) by (simp add: calculate_footprint_unfold x_def)
  define u where "u = x / 2 ^ 53"
  define v where "v = q / 2 ^ 53"
  have "v \<le> 2 * x / 2 ^ 53" unfolding v_def using ql(2) by (rule divide_right_mono) simp
  then have vu: "v \<le> 2 * u" by (simp add: u_def)
  have upos: "0 \<le> u" using xpos by (simp add: u_def)
  have wq: "\<bar>w - q * 400\<bar> \<le> 400 * v" using w(2) by (simp add: v_def)
  have qx: "\<bar>q - x\<bar> \<le> u" using q(2) by (simp add: u_def)
  have "\<bar>w - 400 * x\<bar> \<le> 1600 * u" using wq qx vu upos by linarith
  moreover have "1600 * u = 400 * x / 2 ^ 51" by (simp add: u_def)
  ultimately have "\<bar>w - 400 * x\<bar> \<le> 400 * x / 2 ^ 51" by (simp only:)
  with cf show ?thesis by (simp add: x_def)
qed

lemma to_double_exact_int:
  assumes "0 \<le> j" "j < 2 ^ 53"
  shows "to_double (of_int j) = Finite (of_int j)"
proof (cases "j = 0")
  case True then show ?thesis by (simp add: to_double_def)
next
  case False
  define x :: rat where "x = of_int j"
  have x1: "1 \<le> x" using assms(1) False by (simp add: x_def)
  then have xpos: "0 < x" by simp
  have "(of_int j :: rat) < of_int (2 ^ 53)" using assms(2) by (simp only: of_int_less_iff)
  then have xu: "x < 2 ^ 53" by (simp add: x_def)
  define k where "k = ilog2 x"
  have br: "2 powi k \<le> x" "x < 2 powi (k + 1)" using ilog2_bracket[OF xpos] by (simp_all add: k_def)
  have "ilog2 1 \<le> ilog2 x" using x1 by (intro ilog2_mono) simp_all
  moreover have "ilog2 1 = 0" by (intro ilog2_unique) simp_all
  ultimately have k0: "0 \<le> k" by (simp add: k_def)
  have k52: "k \<le> 52"
  proof (rule ccontr)
    assume "\<not> k \<le> 52"
    then have "(2::rat) powi 53 \<le> 2 powi k" by (intro powi2_mono) simp
    with br(1) xu show False by simp
  qed
  define d where "d = nat (52 - k)"
  have pk: "(2::rat) powi (k - 52) = 1 / 2 ^ d"
  proof -
    have "(2::rat) powi (k - 52) = 2 powi (- int d)" using k52 by (simp add: d_def)
    also have "\<dots> = 1 / 2 ^ d" by (simp add: power_int_minus field_simps)
    finally show ?thesis .
  qed
  have "to_double x = Finite (of_int (j * 2 ^ d) * 2 powi (k - 52))"
  proof (rule to_double_cert)
    show "2 powi k \<le> x" "x < 2 powi (k + 1)" by (rule br)+
    show "- 1022 \<le> k" using k0 by simp
    show "\<bar>x / 2 powi (k - 52) - of_int (j * 2 ^ d)\<bar> < 1 / 2" by (simp add: pk x_def)
    show "(of_int (j * 2 ^ d) :: rat) * 2 powi (k - 52) < 2 ^ 1024"
      using xu by (simp add: pk x_def)
  qed
  then show ?thesis by (simp add: pk x_def)
qed

lemma HOURS_PER_YEAR_value: "HOURS_PER_YEAR = Finite 8766"
  using to_double_exact_int [of 8766] by (simp add: HOURS_PER_YEAR_def)

lemma calculate_footprint_multiple:
  assumes "0 \<le> k" "k < 2 ^ 44"
  shows "calculate_footprint (65 * k) = Inr (Finite (400 * of_int k))"
proof -
  have "to_double (of_int k) = Finite (of_int k)"
    using assms by (intro to_double_exact_int) simp_all
  moreover have "to_double (of_int (k * 400)) = Finite (of_int (k * 400))"
    using assms by (intro to_double_exact_int) simp_all
  ultimately show ?thesis by (simp add: calculate_footprint_unfold mult.commute)
qed


subsection \<open>\<open>calculate_footprint\<close>\<close>

text \<open>
  C8. \<open>calculate_footprint\<close> is \<open>(active_instances / 65) * 400\<close>, computed in floats:
  for every instance count from 0 up to \<open>2 ^ 1000\<close> it returns a finite float whose
  distance from the exact value of \<open>(n / 65) * 400\<close> is at most that value times
  \<open>2 ^ - 51\<close> (two roundings), so the occupancy is fractional and not stepped. Where the
  quotient is an integer \<open>k\<close> (below \<open>2 ^ 44\<close>) the result is exactly \<open>400 * k\<close>; so 0
  gives 0, 65 gives 400 and 130 gives 800.
\<close>

theorem calculate_footprint_values:
  "INSTANCES_PER_SERVER = 65 \<and> WATT_PER_SERVER = 400
   \<and> (0 \<le> n \<and> n < 2 ^ 1000
      \<longrightarrow> (\<exists>v. calculate_footprint n = Inr (Finite v)
               \<and> \<bar>v - of_int n / 65 * 400\<bar> \<le> (of_int n / 65 * 400) / 2 ^ 51))
   \<and> (0 \<le> k \<and> k < 2 ^ 44 \<longrightarrow> calculate_footprint (65 * k) = Inr (Finite (400 * of_int k)))
   \<and> calculate_footprint 0 = Inr (Finite 0)
   \<and> calculate_footprint 65 = Inr (Finite 400)
   \<and> calculate_footprint 130 = Inr (Finite 800)"
proof -
  have zero: "calculate_footprint 0 = Inr (Finite 0)"
    using calculate_footprint_multiple [of 0] by simp
  have near: "\<exists>v. calculate_footprint n = Inr (Finite v)
               \<and> \<bar>v - of_int n / 65 * 400\<bar> \<le> (of_int n / 65 * 400) / 2 ^ 51"
    if "0 \<le> n \<and> n < 2 ^ 1000"
  proof -
    from that calculate_footprint_near_linear [of n] obtain v where
      v: "calculate_footprint n = Inr (Finite v)"
         "\<bar>v - 400 * of_int n / 65\<bar> \<le> (400 * of_int n / 65) / 2 ^ 51" by blast
    have "(of_int n :: rat) / 65 * 400 = 400 * of_int n / 65" by simp
    with v show ?thesis by (simp only:) blast
  qed
  have mult: "calculate_footprint (65 * k) = Inr (Finite (400 * of_int k))"
    if "0 \<le> k \<and> k < 2 ^ 44"
    using that calculate_footprint_multiple [of k] by blast
  have cv: "INSTANCES_PER_SERVER = 65" "WATT_PER_SERVER = 400"
    by (simp_all add: INSTANCES_PER_SERVER_def WATT_PER_SERVER_def)
  from cv near mult zero cf_65 cf_130 show ?thesis by blast
qed

theorem calculate_footprint_values_witness:
  "calculate_footprint 1 = Inr (Finite (6928614811339225 / 2 ^ 50))
   \<and> \<bar>6928614811339225 / 2 ^ 50 - of_int 1 / 65 * 400\<bar> \<le> ((of_int 1 / 65 * 400) / 2 ^ 51 :: rat)
   \<and> calculate_footprint (65 * 3) = Inr (Finite 1200)"
proof -
  from calculate_footprint_values [of 1 3]
  have n: "\<exists>v. calculate_footprint 1 = Inr (Finite v)
               \<and> \<bar>v - of_int 1 / 65 * 400\<bar> \<le> (of_int 1 / 65 * 400) / 2 ^ 51"
    and k: "calculate_footprint (65 * 3) = Inr (Finite (400 * of_int 3))"
    by (simp_all add: INSTANCES_PER_SERVER_def WATT_PER_SERVER_def)
  from n cf_1 have "\<bar>6928614811339225 / 2 ^ 50 - of_int 1 / 65 * 400\<bar>
      \<le> ((of_int 1 / 65 * 400) / 2 ^ 51 :: rat)"
    by auto
  with cf_1 k show ?thesis by simp
qed

text \<open>
  C9 as stated fails. The sum of the footprints of 1 and 12 instances is not the
  footprint of 13 instances (which is exactly 80), and 5 times the footprint of 3
  instances is not the footprint of 15: the roundings differ in the last bit.
\<close>

theorem calculate_footprint_not_linear:
  "calculate_footprint 1 = Inr (Finite (6928614811339225 / 2 ^ 50))
   \<and> calculate_footprint 12 = Inr (Finite (5196461108504419 / 2 ^ 46))
   \<and> fadd (Finite (6928614811339225 / 2 ^ 50)) (Finite (5196461108504419 / 2 ^ 46)) = Finite (5629499534213121 / 2 ^ 46)
   \<and> calculate_footprint (1 + 12) = Inr (Finite 80)
   \<and> Finite (5629499534213121 / 2 ^ 46) \<noteq> Finite 80
   \<and> calculate_footprint 3 = Inr (Finite (5196461108504419 / 2 ^ 48))
   \<and> int_mul_float 5 (Finite (5196461108504419 / 2 ^ 48)) = Inr (Finite (1623894096407631 / 2 ^ 44))
   \<and> calculate_footprint (5 * 3) = Inr (Finite (6495576385630523 / 2 ^ 46))
   \<and> Finite (1623894096407631 / 2 ^ 44) \<noteq> Finite (6495576385630523 / 2 ^ 46)"
proof -
  have s: "to_double (6928614811339225 / 2 ^ 50 + 5196461108504419 / 2 ^ 46) = Finite (5629499534213121 / 2 ^ 46)"
    using to_double_cert [of "6" "6928614811339225 / 2 ^ 50 + 5196461108504419 / 2 ^ 46" "5629499534213121"] by (simp add: power_int_minus)
  have five: "to_double (5) = Finite (5)"
    using to_double_cert [of "2" "5" "5629499534213120"] by (simp add: power_int_minus)
  have p: "to_double (5 * (5196461108504419 / 2 ^ 48)) = Finite (1623894096407631 / 2 ^ 44)"
    using to_double_cert [of "6" "5 * (5196461108504419 / 2 ^ 48)" "6495576385630524"] by (simp add: power_int_minus)
  have f5: "float_of_int 5 = Inr (Finite 5)" using five by (simp add: float_of_int_def)
  have m: "int_mul_float 5 (Finite (5196461108504419 / 2 ^ 48)) = Inr (Finite (1623894096407631 / 2 ^ 44))"
    unfolding int_mul_float_def f5 using p by (simp add: bind_def)
  have a: "fadd (Finite (6928614811339225 / 2 ^ 50)) (Finite (5196461108504419 / 2 ^ 46)) = Finite (5629499534213121 / 2 ^ 46)"
    using s by simp
  have n1: "(5629499534213121 / 2 ^ 46 :: rat) \<noteq> 80" by simp
  have n2: "(1623894096407631 / 2 ^ 44 :: rat) \<noteq> 6495576385630523 / 2 ^ 46" by simp
  show ?thesis
    using cf_1 cf_12 cf_13 cf_3 cf_15 a m n1 n2 by (simp only: simp_thms pyfloat.inject) simp
qed

text \<open>
  C9, as the code has it. On non-negative instance counts \<open>calculate_footprint\<close> is
  monotonic, and it is linear up to rounding: below \<open>2 ^ 1000\<close> instances its value
  differs from the exact \<open>400 * n / 65\<close> by a relative error of at most \<open>2 ^ - 51\<close>.
\<close>

theorem calculate_footprint_monotone_near_linear:
  "(0 \<le> n \<and> n \<le> m \<and> calculate_footprint m = Inr y
      \<longrightarrow> (\<exists>x. calculate_footprint n = Inr x \<and> fle x y))
   \<and> (0 \<le> n \<and> n < 2 ^ 1000
      \<longrightarrow> (\<exists>v. calculate_footprint n = Inr (Finite v)
               \<and> \<bar>v - 400 * of_int n / 65\<bar> \<le> (400 * of_int n / 65) / 2 ^ 51))"
  using calculate_footprint_mono [of n m y] calculate_footprint_near_linear [of n] by blast

theorem calculate_footprint_monotone_near_linear_witness:
  "calculate_footprint 12 = Inr (Finite (5196461108504419 / 2 ^ 46))
   \<and> (\<exists>x. calculate_footprint 1 = Inr x \<and> fle x (Finite (5196461108504419 / 2 ^ 46)))
   \<and> (\<exists>v. calculate_footprint 1 = Inr (Finite v)
          \<and> \<bar>v - 400 * of_int 1 / 65\<bar> \<le> (400 * of_int 1 / 65) / 2 ^ 51)"
  using calculate_footprint_monotone_near_linear [of 1 12 "Finite (5196461108504419 / 2 ^ 46)"] cf_12
  by simp

section \<open>Properties of \<open>login_cf\<close>\<close>

text \<open>
  C4. The docstring of \<open>login_cf\<close> promises success when the expected output is found
  and \<open>RuntimeError\<close> otherwise. Every call raises \<open>TypeError\<close> instead, whatever the
  login command prints: the test \<open>"API endpoint:" in login_output\<close> is applied to the
  method \<open>read\<close>, which was not called.
\<close>

theorem login_cf_type_error:
  "login_cf popen cf_api cf_user cf_pwd cf_org cf_space w = Inl TypeError"
  by (simp add: login_cf_def py_in_def bind_def Let_def split: prod.splits)

section \<open>Properties of the reporter\<close>

lemma bind_Inr: "bind m f = Inr y \<longleftrightarrow> (\<exists>x. m = Inr x \<and> f x = Inr y)"
  by (cases m) (simp_all add: bind_def)

lemma py_round_Inr: "py_round f = Inr r \<longleftrightarrow> (\<exists>v. f = Finite v \<and> r = round_half_even v)"
  by (cases f) auto

lemma to_double_bounded:
  assumes "0 \<le> x" "x < 2 ^ 1000"
  shows "\<exists>r. to_double x = Finite r \<and> 0 \<le> r \<and> r \<le> 2 * x + 1"
proof (cases "x = 0")
  case True
  then show ?thesis by (simp add: to_double_def)
next
  case False
  with assms have xpos: "0 < x" by simp
  define e where "e = max (ilog2 \<bar>x\<bar> - 52) (- 1074)"
  define t where "t = x / 2 powi e"
  have rx: "rounded x = of_int (round_half_even t) * 2 powi e"
    by (simp add: rounded_def e_def t_def Let_def)
  have pe: "2 powi e \<le> x + 1"
  proof (cases "ilog2 \<bar>x\<bar> - 52 \<le> - 1074")
    case True
    then have "e = - 1074" by (simp add: e_def)
    then have "(2::rat) powi e \<le> 1" by (simp add: power_int_minus field_simps)
    with xpos show ?thesis by linarith
  next
    case False
    then have e: "e = ilog2 x - 52" using xpos by (simp add: e_def)
    have "2 powi (e + 52) \<le> x" using ilog2_bracket[OF xpos] by (simp add: e)
    then have "2 powi e * 2 ^ 52 \<le> x" by (simp add: powi2_add)
    moreover have "(2::rat) powi e * 1 \<le> 2 powi e * 2 ^ 52"
      by (intro mult_left_mono) simp_all
    ultimately show ?thesis using xpos by linarith
  qed
  have "of_int (round_half_even t) \<le> t + 1 / 2" using rhe_bounds[of t] by linarith
  then have "of_int (round_half_even t) * 2 powi e \<le> (t + 1 / 2) * 2 powi e"
    by (intro mult_right_mono) simp_all
  also have "\<dots> = x + 2 powi e / 2" by (simp add: t_def field_simps)
  finally have up: "rounded x \<le> 2 * x + 1" using pe xpos unfolding rx by linarith
  have "2 * x + 1 < 2 ^ 1024" using assms(2) by simp
  with up rounded_nonneg[OF xpos] have "\<not> 2 ^ 1024 \<le> \<bar>rounded x\<bar>" by linarith
  with up rounded_nonneg[OF xpos] xpos show ?thesis by (simp add: to_double_rounded)
qed

lemma float_of_int_bounded:
  assumes "0 \<le> n" "n < 2 ^ 64"
  shows "\<exists>r. float_of_int n = Inr (Finite r) \<and> 0 \<le> r \<and> r \<le> 2 ^ 65 + 1"
proof -
  have "(of_int n :: rat) < of_int (2 ^ 64)" using assms(2) by (simp only: of_int_less_iff)
  then have b: "(of_int n :: rat) < 2 ^ 64" by simp
  then have "(0::rat) \<le> of_int n" "(of_int n :: rat) < 2 ^ 1000" using assms(1) by simp_all
  from to_double_bounded[OF this] obtain r where
    "to_double (of_int n) = Finite r" "0 \<le> r" "r \<le> 2 * of_int n + 1" by blast
  with b show ?thesis by (auto simp: float_of_int_def)
qed

lemma float_of_int_1000: "float_of_int 1000 = Inr (Finite 1000)"
  using to_double_exact_int [of 1000] by (simp add: float_of_int_def)

lemma calculate_footprint_bounded:
  assumes "0 \<le> n" "n < 2 ^ 64"
  shows "\<exists>w. calculate_footprint n = Inr (Finite w) \<and> 0 \<le> w \<and> w \<le> 2 ^ 75"
proof -
  have "(of_int n :: rat) < of_int (2 ^ 64)" using assms(2) by (simp only: of_int_less_iff)
  then have b: "(of_int n :: rat) / 65 < 2 ^ 64" using assms(1) by simp
  have "(0::rat) \<le> of_int n / 65" "(of_int n :: rat) / 65 < 2 ^ 1000"
    using assms(1) b by simp_all
  from to_double_bounded[OF this] obtain q where
    q: "to_double (of_int n / 65) = Finite q" "0 \<le> q" "q \<le> 2 * (of_int n / 65) + 1" by blast
  have qb: "q \<le> 2 ^ 65 + 1" using q(3) b by simp
  have "0 \<le> q * 400" "q * 400 < 2 ^ 1000" using q(2) qb by simp_all
  from to_double_bounded[OF this] obtain w where
    w: "to_double (q * 400) = Finite w" "0 \<le> w" "w \<le> 2 * (q * 400) + 1" by blast
  have "w \<le> 2 ^ 75" using w(3) qb by simp
  with q(1) w show ?thesis by (simp add: calculate_footprint_unfold)
qed

lemma calculate_footprint_per_year_bounded:
  assumes "0 \<le> n" "n < 2 ^ 64"
  shows "\<exists>k. calculate_footprint_per_year n = Inr (Finite k) \<and> 0 \<le> k \<and> k \<le> 2 ^ 90"
proof -
  from calculate_footprint_bounded[OF assms] obtain w where
    w: "calculate_footprint n = Inr (Finite w)" "0 \<le> w" "w \<le> 2 ^ 75" by blast
  have "0 \<le> w * 8766" "w * 8766 < 2 ^ 1000" using w(2,3) by simp_all
  from to_double_bounded[OF this] obtain h where
    h: "to_double (w * 8766) = Finite h" "0 \<le> h" "h \<le> 2 * (w * 8766) + 1" by blast
  have hb: "h \<le> 2 ^ 90" using h(3) w(3) by simp
  have "0 \<le> h / 1000" "h / 1000 < 2 ^ 1000" using h(2) hb by simp_all
  from to_double_bounded[OF this] obtain k where
    k: "to_double (h / 1000) = Finite k" "0 \<le> k" "k \<le> 2 * (h / 1000) + 1" by blast
  have "k \<le> 2 ^ 90" using k(3) hb by simp
  with w(1) h(1) k(1,2) show ?thesis
    by (simp add: calculate_footprint_per_year_def bind_def HOURS_PER_YEAR_value float_div_int_def
        float_of_int_1000)
qed

lemma calculate_carbon_footprint_per_year_bounded:
  assumes "0 \<le> n" "n < 2 ^ 64" "0 \<le> ci" "ci < 2 ^ 64"
  shows "\<exists>c. calculate_carbon_footprint_per_year n ci = Inr (Finite c)"
proof -
  from calculate_footprint_per_year_bounded[OF assms(1,2)] obtain k where
    k: "calculate_footprint_per_year n = Inr (Finite k)" "0 \<le> k" "k \<le> 2 ^ 90" by blast
  from float_of_int_bounded[OF assms(3,4)] obtain i where
    i: "float_of_int ci = Inr (Finite i)" "0 \<le> i" "i \<le> 2 ^ 65 + 1" by blast
  have "k * i \<le> 2 ^ 90 * (2 ^ 65 + 1)" using k(2,3) i(2,3) by (intro mult_mono) simp_all
  then have "0 \<le> k * i" "k * i < 2 ^ 1000" using k(2) i(2) by simp_all
  from to_double_bounded[OF this] obtain g where
    g: "to_double (k * i) = Finite g" "0 \<le> g" "g \<le> 2 * (k * i) + 1" by blast
  have gb: "g \<le> 2 ^ 160" using g(3) \<open>k * i \<le> 2 ^ 90 * (2 ^ 65 + 1)\<close> by simp
  have "0 \<le> g / 1000" "g / 1000 < 2 ^ 1000" using g(2) gb by simp_all
  from to_double_bounded[OF this] obtain c where
    c: "to_double (g / 1000) = Finite c" by blast
  with k(1) i(1) g(1) show ?thesis
    by (simp add: calculate_carbon_footprint_per_year_def bind_def float_mul_int_def
        float_div_int_def float_of_int_1000)
qed

text \<open>
  C6. Whenever \<open>print_footprint\<close> prints a line, the metric is chosen with the carbon
  option before the year flag (carbon given and not empty: kg CO2e per year; else year:
  kWh per year; else Watt), the number printed is an integer nearest to the value of
  that metric, and the line starts with \<open>TOTAL:\<close> exactly when the name is \<open>TOTAL\<close> and
  with \<open>Space <name>:\<close> otherwise. A line is printed for every count below \<open>2 ^ 64\<close>
  when the carbon option, if given, reads as a non-negative integer below \<open>2 ^ 64\<close>.
\<close>

theorem print_footprint_line:
  "(print_footprint int_of a name n = Inr line \<longrightarrow>
      (\<exists>v r.
         (if truthy (carbon a)
          then \<exists>c intensity. carbon a = Some c \<and> int_of c = Inr intensity
                 \<and> calculate_carbon_footprint_per_year n intensity = Inr (Finite v)
          else if year a then calculate_footprint_per_year n = Inr (Finite v)
          else calculate_footprint n = Inr (Finite v))
         \<and> \<bar>of_int r - v\<bar> \<le> 1 / 2
         \<and> line = (if name = py ''TOTAL'' then py ''TOTAL:'' else py ''Space '' @ name @ py '':'')
                    @ py '' '' @ str_of_int r
                    @ (if truthy (carbon a) then py '' kg CO2e per year''
                       else if year a then py '' kWh per year'' else py '' Watt'')))
   \<and> (0 \<le> n \<and> n < 2 ^ 64
        \<and> (\<forall>c. carbon a = Some c \<and> c \<noteq> []
               \<longrightarrow> (\<exists>intensity. int_of c = Inr intensity \<and> 0 \<le> intensity \<and> intensity < 2 ^ 64))
      \<longrightarrow> (\<exists>line. print_footprint int_of a name n = Inr line))"
proof (intro conjI impI)
  assume p: "print_footprint int_of a name n = Inr line"
  have label: "(if name = TOTAL then TOTAL @ py '':'' else py ''Space '' @ name @ py '':'')
      = (if name = py ''TOTAL'' then py ''TOTAL:'' else py ''Space '' @ name @ py '':'')"
    by (simp add: TOTAL_def py_def)
  show "\<exists>v r.
         (if truthy (carbon a)
          then \<exists>c intensity. carbon a = Some c \<and> int_of c = Inr intensity
                 \<and> calculate_carbon_footprint_per_year n intensity = Inr (Finite v)
          else if year a then calculate_footprint_per_year n = Inr (Finite v)
          else calculate_footprint n = Inr (Finite v))
         \<and> \<bar>of_int r - v\<bar> \<le> 1 / 2
         \<and> line = (if name = py ''TOTAL'' then py ''TOTAL:'' else py ''Space '' @ name @ py '':'')
                    @ py '' '' @ str_of_int r
                    @ (if truthy (carbon a) then py '' kg CO2e per year''
                       else if year a then py '' kWh per year'' else py '' Watt'')"
  proof (cases "truthy (carbon a)")
    case True
    then obtain c where c: "carbon a = Some c" by (auto simp: truthy_def split: option.splits)
    from p True c obtain intensity v where
      "int_of c = Inr intensity"
      "calculate_carbon_footprint_per_year n intensity = Inr (Finite v)"
      "line = (if name = TOTAL then TOTAL @ py '':'' else py ''Space '' @ name @ py '':'')
                @ py '' '' @ str_of_int (round_half_even v) @ py '' kg CO2e per year''"
      by (auto simp: print_footprint_def Let_def bind_Inr py_round_Inr)
    with True c rhe_bounds[of v] show ?thesis unfolding label by auto
  next
    case False
    show ?thesis
    proof (cases "year a")
      case True
      from p False True obtain v where
        "calculate_footprint_per_year n = Inr (Finite v)"
        "line = (if name = TOTAL then TOTAL @ py '':'' else py ''Space '' @ name @ py '':'')
                  @ py '' '' @ str_of_int (round_half_even v) @ py '' kWh per year''"
        by (auto simp: print_footprint_def Let_def bind_Inr py_round_Inr)
      with False True rhe_bounds[of v] show ?thesis unfolding label by auto
    next
      case ny: False
      from p False ny obtain v where
        "calculate_footprint n = Inr (Finite v)"
        "line = (if name = TOTAL then TOTAL @ py '':'' else py ''Space '' @ name @ py '':'')
                  @ py '' '' @ str_of_int (round_half_even v) @ py '' Watt''"
        by (auto simp: print_footprint_def Let_def bind_Inr py_round_Inr)
      with False ny rhe_bounds[of v] show ?thesis unfolding label by auto
    qed
  qed
next
  assume h: "0 \<le> n \<and> n < 2 ^ 64
        \<and> (\<forall>c. carbon a = Some c \<and> c \<noteq> []
               \<longrightarrow> (\<exists>intensity. int_of c = Inr intensity \<and> 0 \<le> intensity \<and> intensity < 2 ^ 64))"
  then have n: "0 \<le> n" "n < 2 ^ 64" by auto
  show "\<exists>line. print_footprint int_of a name n = Inr line"
  proof (cases "truthy (carbon a)")
    case True
    then obtain c where c: "carbon a = Some c" "c \<noteq> []"
      by (auto simp: truthy_def split: option.splits)
    with h obtain intensity where i: "int_of c = Inr intensity" "0 \<le> intensity" "intensity < 2 ^ 64"
      by blast
    from calculate_carbon_footprint_per_year_bounded[OF n i(2,3)] obtain v where
      "calculate_carbon_footprint_per_year n intensity = Inr (Finite v)" by blast
    with True c i(1) show ?thesis by (simp add: print_footprint_def Let_def bind_def)
  next
    case False
    from calculate_footprint_per_year_bounded[OF n] obtain k where
      "calculate_footprint_per_year n = Inr (Finite k)" by blast
    moreover from calculate_footprint_bounded[OF n] obtain w where
      "calculate_footprint n = Inr (Finite w)" by blast
    ultimately show ?thesis using False by (simp add: print_footprint_def Let_def bind_def)
  qed
qed

lemma ccfpy_65_600:
  "calculate_carbon_footprint_per_year 65 600 = Inr (Finite (578299135745065 / 2 ^ 38))"
proof -
  have a: "to_double (400 * 8766) = Finite (3506400)"
    using to_double_cert [of "21" "400 * 8766" "7529936663347200"] by (simp add: power_int_minus)
  have b: "to_double (3506400 / 1000) = Finite (7710655143267533 / 2 ^ 41)"
    using to_double_cert [of "11" "3506400 / 1000" "7710655143267533"] by (simp add: power_int_minus)
  have s: "to_double (600) = Finite (600)"
    using to_double_cert [of "9" "600" "5277655813324800"] by (simp add: power_int_minus)
  have c: "to_double ((7710655143267533 / 2 ^ 41) * 600) = Finite (2103840)"
    using to_double_cert [of "21" "(7710655143267533 / 2 ^ 41) * 600" "4517961998008320"] by (simp add: power_int_minus)
  have d: "to_double ((2103840) / 1000) = Finite (578299135745065 / 2 ^ 38)"
    using to_double_cert [of "11" "(2103840) / 1000" "4626393085960520"] by (simp add: power_int_minus)
  have f600: "float_of_int 600 = Inr (Finite 600)" using s by (simp add: float_of_int_def)
  have y: "calculate_footprint_per_year 65 = Inr (Finite (7710655143267533 / 2 ^ 41))"
    using cf_65 a b
    by (simp add: calculate_footprint_per_year_def bind_def HOURS_PER_YEAR_value float_div_int_def
        float_of_int_1000)
  show ?thesis
    unfolding calculate_carbon_footprint_per_year_def y float_mul_int_def float_div_int_def
      f600 float_of_int_1000
    using c d by (simp add: bind_def)
qed

theorem print_footprint_line_witness:
  "print_footprint (\<lambda>s. if s = py ''600'' then Inr 600 else Inl ValueError)
     \<lparr>year = True, carbon = Some (py ''600''), space = None, verbose = False\<rparr> (py ''TOTAL'') 65
     = Inr (py ''TOTAL: 2104 kg CO2e per year'')
   \<and> (\<exists>v r. calculate_carbon_footprint_per_year 65 600 = Inr (Finite v)
          \<and> \<bar>of_int r - v\<bar> \<le> 1 / 2
          \<and> py ''TOTAL: 2104 kg CO2e per year''
              = py ''TOTAL:'' @ py '' '' @ str_of_int r @ py '' kg CO2e per year'')"
proof -
  have r: "round_half_even (578299135745065 / 2 ^ 38) = 2104"
    by (rule rhe_unique) simp
  have e: "print_footprint (\<lambda>s. if s = py ''600'' then Inr 600 else Inl ValueError)
     \<lparr>year = True, carbon = Some (py ''600''), space = None, verbose = False\<rparr> (py ''TOTAL'') 65
     = Inr (py ''TOTAL: 2104 kg CO2e per year'')"
    using ccfpy_65_600 r
    by (simp add: print_footprint_def truthy_def TOTAL_def bind_def str_of_int_def digits.simps
        py_def)
  from print_footprint_line [of "\<lambda>s. if s = py ''600'' then Inr 600 else Inl ValueError"
     "\<lparr>year = True, carbon = Some (py ''600''), space = None, verbose = False\<rparr>" "py ''TOTAL''" 65
     "py ''TOTAL: 2104 kg CO2e per year''"] e
  show ?thesis by (simp add: truthy_def py_def)
qed

section \<open>Properties of \<open>main\<close>\<close>

lemma report_Inr:
  "report int_of a name n st = Inr st' \<longleftrightarrow>
     (\<exists>line. print_footprint int_of a name n = Inr line
        \<and> st' = st\<lparr>reports := reports st @ [(name, n)], stdout := stdout st @ [line]\<rparr>)"
  by (auto simp: report_def bind_Inr)

lemma main_loop_counts:
  "main_loop popen int_of a spaces acc st = Inr (acc1, st') \<Longrightarrow>
     \<exists>counts. per_space_counts popen spaces (world st) = Inr (counts, world st')
       \<and> length counts = length spaces
       \<and> acc1 = acc + sum_list counts
       \<and> reports st' = reports st @ zip spaces counts"
proof (induction spaces arbitrary: acc st)
  case Nil
  then show ?case by simp
next
  case (Cons s rest)
  from Cons.prems obtain n w st1 where
    m: "measure_space popen s (world st) = Inr (n, w)" and
    r: "report int_of a s n (st\<lparr>world := w\<rparr>) = Inr st1" and
    l: "main_loop popen int_of a rest (acc + n) st1 = Inr (acc1, st')"
    by (auto simp: bind_Inr)
  from r have st1: "world st1 = w" "reports st1 = reports st @ [(s, n)]"
    by (auto simp: report_Inr)
  from Cons.IH[OF l] obtain counts where
    c: "per_space_counts popen rest w = Inr (counts, world st')"
       "length counts = length rest"
       "acc1 = acc + n + sum_list counts"
       "reports st' = reports st1 @ zip rest counts"
    by (auto simp: st1)
  have "per_space_counts popen (s # rest) (world st) = Inr (n # counts, world st')"
    using m c(1) by (simp add: bind_def)
  moreover have "reports st' = reports st @ zip (s # rest) (n # counts)"
    using c(4) st1(2) by simp
  ultimately show ?case using c(2,3) by (intro exI[of _ "n # counts"]) simp
qed

text \<open>
  C1. In all-spaces mode (\<open>args.space\<close> not given), in every run that reaches the end,
  the calls of \<open>print_footprint\<close> are one per space, in the listed order, with the count
  \<open>get_active_instances\<close> returned for it, followed by the call for \<open>TOTAL\<close> with the sum
  of these counts; that call prints the last line.
\<close>

theorem main_total_is_sum:
  "\<not> truthy (space a) \<and> main popen int_of a w = Inr st \<longrightarrow>
     (\<exists>spaces counts w'.
        get_cf_spaces (fst (popen (py ''cf spaces'') w)) = Inr spaces
        \<and> per_space_counts popen spaces (snd (popen (py ''cf spaces'') w)) = Inr (counts, w')
        \<and> length counts = length spaces
        \<and> reports st = zip spaces counts @ [(TOTAL, sum_list counts)]
        \<and> print_footprint int_of a TOTAL (sum_list counts) = Inr (last (stdout st)))"
proof
  assume h: "\<not> truthy (space a) \<and> main popen int_of a w = Inr st"
  obtain spaces_output w1 where po: "popen (py ''cf spaces'') w = (spaces_output, w1)"
    by (cases "popen (py ''cf spaces'') w")
  from h po obtain spaces acc st1 where
    sp: "get_cf_spaces spaces_output = Inr spaces" and
    l: "main_loop popen int_of a spaces 0 \<lparr>world = w1, reports = [], stdout = []\<rparr> = Inr (acc, st1)" and
    r: "report int_of a TOTAL acc st1 = Inr st"
    by (auto simp: main_def Let_def bind_Inr)
  from main_loop_counts[OF l] obtain counts where
    c: "per_space_counts popen spaces w1 = Inr (counts, world st1)"
       "length counts = length spaces"
       "acc = sum_list counts"
       "reports st1 = zip spaces counts"
    by auto
  from r obtain line where
    line: "print_footprint int_of a TOTAL acc = Inr line"
      "st = st1\<lparr>reports := reports st1 @ [(TOTAL, acc)], stdout := stdout st1 @ [line]\<rparr>"
    by (auto simp: report_Inr)
  show "\<exists>spaces counts w'.
        get_cf_spaces (fst (popen (py ''cf spaces'') w)) = Inr spaces
        \<and> per_space_counts popen spaces (snd (popen (py ''cf spaces'') w)) = Inr (counts, w')
        \<and> length counts = length spaces
        \<and> reports st = zip spaces counts @ [(TOTAL, sum_list counts)]
        \<and> print_footprint int_of a TOTAL (sum_list counts) = Inr (last (stdout st))"
    using sp c line po by (intro exI[of _ spaces] exI[of _ counts] exI[of _ "world st1"]) simp
qed

lemma print_footprint_watt:
  assumes "\<not> truthy (carbon a)" "\<not> year a" "calculate_footprint n = Inr (Finite v)"
      and "\<bar>v - of_int r\<bar> < 1 / 2"
  shows "print_footprint int_of a name n =
           Inr ((if name = TOTAL then TOTAL @ py '':'' else py ''Space '' @ name @ py '':'')
                @ py '' '' @ str_of_int r @ py '' Watt'')"
  using assms(1-3) rhe_unique[OF assms(4)]
  by (simp add: print_footprint_def bind_def)

theorem main_total_is_sum_witness:
  "main (\<lambda>cmd w. if cmd = py ''cf spaces'' then (py ''Getting spaces...\<newline>\<newline>name\<newline>space-a\<newline>space-b\<newline>'', w)
        else if cmd = py ''cf target -s space-a'' then (py ''API endpoint: https://api.example.org'', 5)
        else if cmd = py ''cf target -s space-b'' then (py ''API endpoint: https://api.example.org'', 7)
        else if cmd = py ''cf apps''
          then (if w = 5 then py ''Getting apps...\<newline>\<newline>name   requested state   processes\<newline>web-a   started   web:10/10\<newline>''
                else py ''Getting apps...\<newline>\<newline>name   requested state   processes\<newline>web-b   started   web:50/50\<newline>job-b   started   web:5/9\<newline>'', w)
        else ([], w))
     (\<lambda>s. Inl ValueError) \<lparr>year = False, carbon = None, space = None, verbose = False\<rparr> (0::nat)
   = Inr \<lparr>world = 7,
          reports = [(py ''space-a'', 10), (py ''space-b'', 55), (py ''TOTAL'', 65)],
          stdout = [py ''Space space-a: 62 Watt'', py ''Space space-b: 338 Watt'',
                    py ''TOTAL: 400 Watt'']\<rparr>
   \<and> (\<exists>spaces counts.
        length counts = length spaces
        \<and> [(py ''space-a'', 10::int), (py ''space-b'', 55), (py ''TOTAL'', 65)]
            = zip spaces counts @ [(TOTAL, sum_list counts)])"
proof -
  define P :: "nat popen" where "P = (\<lambda>cmd w. if cmd = py ''cf spaces'' then (py ''Getting spaces...\<newline>\<newline>name\<newline>space-a\<newline>space-b\<newline>'', w)
        else if cmd = py ''cf target -s space-a'' then (py ''API endpoint: https://api.example.org'', 5)
        else if cmd = py ''cf target -s space-b'' then (py ''API endpoint: https://api.example.org'', 7)
        else if cmd = py ''cf apps''
          then (if w = 5 then py ''Getting apps...\<newline>\<newline>name   requested state   processes\<newline>web-a   started   web:10/10\<newline>''
                else py ''Getting apps...\<newline>\<newline>name   requested state   processes\<newline>web-b   started   web:50/50\<newline>job-b   started   web:5/9\<newline>'', w)
        else ([], w))"
  define A where "A = \<lparr>year = False, carbon = None, space = None, verbose = False\<rparr>"
  define I :: "pystr \<Rightarrow> error + int" where "I = (\<lambda>s. Inl ValueError)"
  have A: "\<not> truthy (carbon A)" "\<not> year A" "\<not> truthy (space A)"
    by (simp_all add: A_def truthy_def)
  have sp: "P (py ''cf spaces'') 0 = (py ''Getting spaces...\<newline>\<newline>name\<newline>space-a\<newline>space-b\<newline>'', 0)"
    by (simp add: P_def)
  have gs: "get_cf_spaces (py ''Getting spaces...\<newline>\<newline>name\<newline>space-a\<newline>space-b\<newline>'')
      = Inr [py ''space-a'', py ''space-b'']"
    by (simp add: get_cf_spaces_def py_def str_contains_def startswith_def split1_def index_def
        splitlines_def is_linebreak_def)
  have ma: "measure_space P (py ''space-a'') 0 = Inr (10, 5)"
    by (simp add: measure_space_def P_def py_def switch_to_cf_space_def str_contains_def
        startswith_def bind_def get_active_instances_def splitlines_def is_linebreak_def index_def
        apps_pattern_def is_space_def is_digit_def int_of_digits_def)
  have mb: "measure_space P (py ''space-b'') 5 = Inr (55, 7)"
    by (simp add: measure_space_def P_def py_def switch_to_cf_space_def str_contains_def
        startswith_def bind_def get_active_instances_def splitlines_def is_linebreak_def index_def
        apps_pattern_def is_space_def is_digit_def int_of_digits_def)
  have pa: "print_footprint I A (py ''space-a'') 10 = Inr (py ''Space space-a: 62 Watt'')"
    using print_footprint_watt [OF A(1,2) cf_10, of 62 I "py ''space-a''"]
    by (simp add: TOTAL_def py_def str_of_int_def digits.simps)
  have pb: "print_footprint I A (py ''space-b'') 55 = Inr (py ''Space space-b: 338 Watt'')"
    using print_footprint_watt [OF A(1,2) cf_55, of 338 I "py ''space-b''"]
    by (simp add: TOTAL_def py_def str_of_int_def digits.simps)
  have pt: "print_footprint I A TOTAL 65 = Inr (py ''TOTAL: 400 Watt'')"
    using print_footprint_watt [OF A(1,2) cf_65, of 400 I TOTAL]
    by (simp add: TOTAL_def py_def str_of_int_def digits.simps)
  have run: "main P I A 0
   = Inr \<lparr>world = 7,
          reports = [(py ''space-a'', 10), (py ''space-b'', 55), (py ''TOTAL'', 65)],
          stdout = [py ''Space space-a: 62 Watt'', py ''Space space-b: 338 Watt'',
                    py ''TOTAL: 400 Watt'']\<rparr>"
    using A(3) by (simp add: main_def Let_def sp gs ma mb pa pb pt report_def bind_def)
       (simp add: TOTAL_def)
  define S :: "nat run" where
    "S = \<lparr>world = 7,
          reports = [(py ''space-a'', 10), (py ''space-b'', 55), (py ''TOTAL'', 65)],
          stdout = [py ''Space space-a: 62 Watt'', py ''Space space-b: 338 Watt'',
                    py ''TOTAL: 400 Watt'']\<rparr>"
  have h: "\<not> truthy (space A) \<and> main P I A 0 = Inr S"
    using A(3) run by (simp add: S_def)
  from main_total_is_sum [THEN mp, OF h]
  obtain spaces counts where
    "length counts = length spaces"
    "reports S = zip spaces counts @ [(TOTAL, sum_list counts)]"
    by blast
  then have "length counts = length spaces"
    "[(py ''space-a'', 10::int), (py ''space-b'', 55), (py ''TOTAL'', 65)]
            = zip spaces counts @ [(TOTAL, sum_list counts)]"
    by (simp_all add: S_def)
  then have "\<exists>spaces counts.
        length counts = length spaces
        \<and> [(py ''space-a'', 10::int), (py ''space-b'', 55), (py ''TOTAL'', 65)]
            = zip spaces counts @ [(TOTAL, sum_list counts)]" by blast
  with run show ?thesis unfolding P_def A_def I_def by simp
qed

end
